theory Spec2Isabelle
  imports Main
begin

section \<open>Python strings\<close>

text \<open>
  A Python \<open>str\<close> is a sequence of code points. The documents and identifiers of the
  scripts are modelled as \<open>string\<close>, one \<open>char\<close> per code point, which covers the
  code points below 256. The character classes below are Python's own on that range:
  \<open>\s\<close> of \<open>re\<close> and \<open>str.strip\<close> agree on the twelve code points of \<open>is_space\<close>,
  \<open>\d\<close> is \<open>0-9\<close>, and \<open>str.lower\<close> changes \<open>A-Z\<close> and the capital letters of Latin-1.
\<close>

definition is_space :: "char \<Rightarrow> bool" where
  "is_space c =
     (let n = (of_char c :: nat)
      in (9 \<le> n \<and> n \<le> 13) \<or> (28 \<le> n \<and> n \<le> 32) \<or> n = 133 \<or> n = 160)"

definition is_upper :: "char \<Rightarrow> bool" where
  "is_upper c = (let n = (of_char c :: nat) in 65 \<le> n \<and> n \<le> 90)"

definition is_digit :: "char \<Rightarrow> bool" where
  "is_digit c = (let n = (of_char c :: nat) in 48 \<le> n \<and> n \<le> 57)"

definition is_lower_az :: "char \<Rightarrow> bool" where
  "is_lower_az c = (let n = (of_char c :: nat) in 97 \<le> n \<and> n \<le> 122)"

definition lower_char :: "char \<Rightarrow> char" where
  "lower_char c =
     (let n = (of_char c :: nat)
      in if (65 \<le> n \<and> n \<le> 90) \<or> (192 \<le> n \<and> n \<le> 222 \<and> n \<noteq> 215)
         then char_of (n + 32) else c)"

definition lower :: "string \<Rightarrow> string" where
  "lower s = map lower_char s"

definition strip :: "string \<Rightarrow> string" where
  "strip s = rev (dropWhile is_space (rev (dropWhile is_space s)))"

text \<open>\<open>s.split(c)\<close> for a one-character separator: never an empty list.\<close>

fun split_on :: "char \<Rightarrow> string \<Rightarrow> string list" where
  "split_on c [] = [[]]"
| "split_on c (x # xs) =
     (if x = c then [] # split_on c xs
      else (case split_on c xs of
              [] \<Rightarrow> [[x]]
            | y # ys \<Rightarrow> (x # y) # ys))"

fun join :: "string \<Rightarrow> string list \<Rightarrow> string" where
  "join sep [] = []"
| "join sep [x] = x"
| "join sep (x # y # ys) = x @ sep @ join sep (y # ys)"

definition startswith :: "string \<Rightarrow> string \<Rightarrow> bool" where
  "startswith s p = (take (length p) s = p)"

section \<open>The table rows that the scripts match\<close>

text \<open>
  The scripts find a field of a document with a regular expression over the whole text:
  \<open>(\|\s*F\s*\|\s*)([^|]+)(\|)\<close> for a reference field with label \<open>F\<close>. The
  matchers below are that expression, piece by piece, at the start of a text.

  \<open>match_label F\<close> is \<open>\|\s*F\s*\|\<close>: it gives the text matched and the rest. The
  labels of the scripts begin with a letter, so a white space that \<open>\s*\<close> has taken is
  never given back to the label.

  \<open>match_value\<close> is \<open>\s*([^|]+)\|\<close>: the white space, the group and the rest after the
  closing bar. \<open>\s*\<close> is greedy; when nothing but white space stands before the bar, it
  gives its last character back to the group, which needs one.

  \<open>match_field F\<close> gives group 1, group 2 and the rest; group 3 is the bar.
\<close>

definition not_pipe :: "char \<Rightarrow> bool" where
  "not_pipe c = (c \<noteq> CHR ''|'')"

definition match_label :: "string \<Rightarrow> string \<Rightarrow> (string \<times> string) option" where
  "match_label F s =
     (case s of
        [] \<Rightarrow> None
      | c # s1 \<Rightarrow>
          if c \<noteq> CHR ''|'' then None
          else if \<not> startswith (dropWhile is_space s1) F then None
          else
            (case dropWhile is_space (drop (length F) (dropWhile is_space s1)) of
               [] \<Rightarrow> None
             | d # s5 \<Rightarrow>
                 if d \<noteq> CHR ''|'' then None
                 else Some (CHR ''|'' # takeWhile is_space s1 @ F
                            @ takeWhile is_space (drop (length F) (dropWhile is_space s1))
                            @ [CHR ''|''], s5)))"

definition match_value :: "string \<Rightarrow> (string \<times> string \<times> string) option" where
  "match_value s =
     (case dropWhile not_pipe (dropWhile is_space s) of
        [] \<Rightarrow> None
      | e # rest \<Rightarrow>
          if takeWhile not_pipe (dropWhile is_space s) \<noteq> []
          then Some (takeWhile is_space s, takeWhile not_pipe (dropWhile is_space s), rest)
          else if takeWhile is_space s \<noteq> []
          then Some (butlast (takeWhile is_space s), [last (takeWhile is_space s)], rest)
          else None)"

definition match_field :: "string \<Rightarrow> string \<Rightarrow> (string \<times> string \<times> string) option" where
  "match_field F s =
     (case match_label F s of
        None \<Rightarrow> None
      | Some (lab, s5) \<Rightarrow>
          (case match_value s5 of
             None \<Rightarrow> None
           | Some (w, v, rest) \<Rightarrow> Some (lab @ w, v, rest)))"

lemma not_space_pipe [simp]: "\<not> is_space CHR ''|''"
  by (simp add: is_space_def)

lemma dropWhile_eq_split: "dropWhile P xs = ys \<Longrightarrow> xs = takeWhile P xs @ ys"
  by (metis takeWhile_dropWhile_id)

lemma dropWhile_not_pipe_Cons:
  "dropWhile not_pipe t = e # rest \<Longrightarrow> e = CHR ''|''"
  using hd_dropWhile [of not_pipe t] by (auto simp: not_pipe_def)

lemma startswith_iff: "startswith t p \<longleftrightarrow> (\<exists>r. t = p @ r)"
  unfolding startswith_def
proof
  assume "take (length p) t = p"
  then have "t = p @ drop (length p) t" by (metis append_take_drop_id)
  then show "\<exists>r. t = p @ r" ..
next
  assume "\<exists>r. t = p @ r"
  then show "take (length p) t = p" by auto
qed

lemma match_label_Some:
  "match_label F s = Some (lab, r) \<longleftrightarrow>
     (\<exists>s1 t3. s = CHR ''|'' # s1 \<and> dropWhile is_space s1 = F @ t3
        \<and> dropWhile is_space t3 = CHR ''|'' # r
        \<and> lab = CHR ''|'' # takeWhile is_space s1 @ F @ takeWhile is_space t3 @ [CHR ''|''])"
proof (cases s)
  case Nil
  then show ?thesis by (simp add: match_label_def)
next
  case (Cons c s1)
  show ?thesis
  proof (cases "c = CHR ''|'' \<and> startswith (dropWhile is_space s1) F")
    case False
    then show ?thesis by (auto simp: Cons match_label_def startswith_iff)
  next
    case True
    then obtain t3 where t3: "dropWhile is_space s1 = F @ t3"
      by (auto simp: startswith_iff)
    have sw: "startswith (F @ t3) F" by (auto simp: startswith_iff)
    show ?thesis using True
      by (auto simp: Cons match_label_def t3 sw simp del: dropWhile_eq_Nil_conv
          split: list.splits)
  qed
qed

lemma match_label_whole: "match_label F s = Some (lab, r) \<Longrightarrow> s = lab @ r"
proof -
  assume "match_label F s = Some (lab, r)"
  then obtain s1 t3 where s: "s = CHR ''|'' # s1" and d1: "dropWhile is_space s1 = F @ t3"
    and d3: "dropWhile is_space t3 = CHR ''|'' # r"
    and lab: "lab = CHR ''|'' # takeWhile is_space s1 @ F @ takeWhile is_space t3 @ [CHR ''|'']"
    unfolding match_label_Some by blast
  define w1 where "w1 = takeWhile is_space s1"
  define w2 where "w2 = takeWhile is_space t3"
  have e1: "s1 = w1 @ F @ t3" unfolding w1_def using d1 by (rule dropWhile_eq_split)
  have e2: "t3 = w2 @ CHR ''|'' # r" unfolding w2_def using d3 by (rule dropWhile_eq_split)
  have "lab = CHR ''|'' # w1 @ F @ w2 @ [CHR ''|'']" by (simp add: lab w1_def w2_def)
  then show ?thesis by (simp add: s e1 e2)
qed

lemma match_value_Some:
  "match_value s = Some (w, v, rest) \<longleftrightarrow>
     dropWhile not_pipe (dropWhile is_space s) = CHR ''|'' # rest
     \<and> (if takeWhile not_pipe (dropWhile is_space s) \<noteq> []
         then w = takeWhile is_space s \<and> v = takeWhile not_pipe (dropWhile is_space s)
         else takeWhile is_space s \<noteq> [] \<and> w = butlast (takeWhile is_space s)
              \<and> v = [last (takeWhile is_space s)])"
  by (auto simp: match_value_def simp del: dropWhile_eq_Nil_conv split: list.splits
      dest: dropWhile_not_pipe_Cons)

lemma match_value_whole:
  assumes "match_value s = Some (w, v, rest)"
  shows "s = w @ v @ CHR ''|'' # rest"
proof -
  define ws where "ws = takeWhile is_space s"
  define t where "t = dropWhile is_space s"
  define b where "b = takeWhile not_pipe t"
  have s: "s = ws @ t" by (simp add: ws_def t_def)
  from assms have d: "dropWhile not_pipe t = CHR ''|'' # rest"
    and c: "if b \<noteq> [] then w = ws \<and> v = b else ws \<noteq> [] \<and> w = butlast ws \<and> v = [last ws]"
    unfolding match_value_Some t_def b_def ws_def by simp_all
  have t: "t = b @ CHR ''|'' # rest" unfolding b_def using d by (rule dropWhile_eq_split)
  show ?thesis
  proof (cases "b = []")
    case False
    with c show ?thesis by (simp add: s t)
  next
    case True
    with c have "w @ v = ws" by simp
    then have "w @ v @ CHR ''|'' # rest = ws @ CHR ''|'' # rest" by (metis append.assoc)
    with True show ?thesis by (simp add: s t)
  qed
qed

lemma match_field_whole:
  assumes "match_field F s = Some (g1, g2, rest)"
  shows "s = g1 @ g2 @ CHR ''|'' # rest"
  using assms
  by (auto simp: match_field_def split: option.splits
      dest!: match_label_whole match_value_whole)

lemma match_field_shorter:
  "match_field F s = Some (g1, g2, rest) \<Longrightarrow> length rest < length s"
  by (drule match_field_whole) simp

text \<open>
  \<open>re.sub(pattern, repl, content)\<close> for that pattern: the text is scanned from the left,
  \<open>repl\<close> is called on every match with the groups, and the scan goes on behind the match.
  \<open>repl\<close> may update variables of the enclosing function; they are the state \<open>st\<close>.
\<close>

function re_sub_field ::
  "string \<Rightarrow> (string \<Rightarrow> string \<Rightarrow> 's \<Rightarrow> string \<times> 's) \<Rightarrow> string \<Rightarrow> 's \<Rightarrow> string \<times> 's" where
  "re_sub_field F repl [] st = ([], st)"
| "re_sub_field F repl (c # cs) st =
     (case match_field F (c # cs) of
        None \<Rightarrow> (case re_sub_field F repl cs st of (out, st') \<Rightarrow> (c # out, st'))
      | Some (g1, g2, rest) \<Rightarrow>
          (case repl g1 g2 st of (txt, st1) \<Rightarrow>
             (case re_sub_field F repl rest st1 of (out, st2) \<Rightarrow> (txt @ out, st2))))"
  by pat_completeness auto
termination
  by (relation "measure (\<lambda>(F, repl, s, st). length s)") (auto dest: match_field_shorter)

section \<open>Remote keys in a document\<close>

text \<open>
  \<open>is_jira_key\<close>: \<open>re.match(r'^[A-Z]+-\d+$', ref.strip())\<close>. After \<open>strip\<close> the
  text has no final newline, so \<open>$\<close> is the end of the text.
\<close>

definition is_jira_key :: "string \<Rightarrow> bool" where
  "is_jira_key ref =
     (let s = strip ref; u = takeWhile is_upper s
      in u \<noteq> [] \<and>
         (case dropWhile is_upper s of
            [] \<Rightarrow> False
          | c # d \<Rightarrow> c = CHR ''-'' \<and> d \<noteq> [] \<and> list_all is_digit d))"

text \<open>
  \<open>\|\s*JIRA Key\s*\|\s*([A-Z]+-\d+)\s*\|\<close> at the start of a text: the group.
\<close>

definition match_jira_key_row :: "string \<Rightarrow> string option" where
  "match_jira_key_row s =
     (case match_label ''JIRA Key'' s of
        None \<Rightarrow> None
      | Some (lab, s5) \<Rightarrow>
          (let t = dropWhile is_space s5; u = takeWhile is_upper t
           in if u = [] then None
              else (case dropWhile is_upper t of
                      [] \<Rightarrow> None
                    | c # t2 \<Rightarrow>
                        if c \<noteq> CHR ''-'' \<or> takeWhile is_digit t2 = [] then None
                        else (case dropWhile is_space (dropWhile is_digit t2) of
                                [] \<Rightarrow> None
                              | p # rest \<Rightarrow>
                                  if p = CHR ''|''
                                  then Some (u @ CHR ''-'' # takeWhile is_digit t2)
                                  else None))))"

text \<open>\<open>re.search\<close>: the first position of the text at which the expression matches.\<close>

fun search_jira_key_row :: "string \<Rightarrow> string option" where
  "search_jira_key_row [] = None"
| "search_jira_key_row (c # cs) =
     (case match_jira_key_row (c # cs) of
        Some k \<Rightarrow> Some k
      | None \<Rightarrow> search_jira_key_row cs)"

definition extract_jira_key :: "string \<Rightarrow> string" where
  "extract_jira_key content = (case search_jira_key_row content of Some k \<Rightarrow> k | None \<Rightarrow> [])"

text \<open>\<open>re.search(r'\|\s*F\s*\|\s*([^|]+)\|', content)\<close>: group 1 of the first match.\<close>

fun search_field :: "string \<Rightarrow> string \<Rightarrow> string option" where
  "search_field F [] = None"
| "search_field F (c # cs) =
     (case match_field F (c # cs) of
        Some (g1, g2, rest) \<Rightarrow> Some g2
      | None \<Rightarrow> search_field F cs)"

section \<open>The retrying transport of jira-sync-comprehensive.py\<close>

text \<open>
  \<open>JiraClient._request\<close> sends one HTTP request and calls itself again on a rate-limit
  answer, a server error or a timeout. What the remote service answers is not decided by the
  script, so the model takes the answers as a list, one \<open>http_event\<close> per attempt, in the
  order in which the attempts are made. A call that has used up the list without returning
  or raising is still \<open>Waiting\<close> for an answer.

  The fields of a response that the function reads are its status code, its
  \<open>Retry-After\<close> header and its body. \<open>int(...)\<close> of a header that is not a number
  raises \<open>ValueError\<close>, and so does \<open>time.sleep\<close> of a negative number;
  \<open>time.sleep\<close> of a number of seconds that does not fit the 64-bit clock of the
  interpreter, which counts nanoseconds, raises \<open>OverflowError\<close>.
\<close>

datatype retry_after = Absent | Seconds int | Unparsable

text \<open>
  A parsed JSON value. An object is the list of its members; a key is looked up with
  \<open>map_of\<close>. \<open>JNull\<close> is Python's \<open>None\<close> and \<open>JObj []\<close> is \<open>{}\<close>.
\<close>

datatype json =
  JNull | JBool bool | JNum int | JStr string | JArr "json list" | JObj "(string \<times> json) list"

text \<open>
  The body of a response: empty, a JSON text (given by the value it parses to), or a text
  that \<open>response.json()\<close> cannot parse.
\<close>

datatype body = NoBody | JsonBody json | BadBody

datatype http_event = Response nat retry_after body | TimeoutEvent | TransportFailure

datatype error =
  ApiError nat | TimeoutError | TransportError | ValueError | JsonError | OverflowError
| RecursionError

datatype outcome = Returned json | Raised error | Waiting

text \<open>
  The result of a call: how it ended, the answers not yet consumed, and the back-off
  sleeps it made (in seconds, in order).
\<close>

type_synonym call_result = "outcome \<times> http_event list \<times> nat list"

definition MAX_RETRIES :: nat where
  "MAX_RETRIES = 3"

text \<open>\<open>response.ok\<close> of the requests library: no 4xx and no 5xx status.\<close>

definition response_ok :: "nat \<Rightarrow> bool" where
  "response_ok status = (\<not> (400 \<le> status \<and> status < 600))"

definition slept :: "nat \<Rightarrow> call_result \<Rightarrow> call_result" where
  "slept n res = (case res of (out, rest, sl) \<Rightarrow> (out, rest, n # sl))"

definition retry_after_seconds :: "retry_after \<Rightarrow> error + nat" where
  "retry_after_seconds ra =
     (case ra of
        Absent \<Rightarrow> Inr 60
      | Seconds n \<Rightarrow>
          if n < 0 then Inl ValueError
          else if 9223372036 < n then Inl OverflowError
          else Inr (nat n)
      | Unparsable \<Rightarrow> Inl ValueError)"

text \<open>
  The clause \<open>except requests.exceptions.Timeout\<close>. It guards the whole \<open>try\<close> block,
  the two recursive calls written inside the block included: a timeout that such an inner
  call gives up on is caught again by the frame that made the call. \<open>self\<close> is the
  recursive call.
\<close>

definition except_timeout ::
  "(http_event list \<Rightarrow> nat \<Rightarrow> call_result) \<Rightarrow> nat \<Rightarrow> call_result \<Rightarrow> call_result" where
  "except_timeout self retries res =
     (case res of (out, rest, sl) \<Rightarrow>
        if out = Raised TimeoutError then
          (if retries < MAX_RETRIES
           then (case self rest (retries + 1) of
                   (out2, rest2, sl2) \<Rightarrow> (out2, rest2, sl @ 5 # sl2))
           else (Raised TimeoutError, rest, sl))
        else res)"

definition request_body ::
  "(http_event list \<Rightarrow> nat \<Rightarrow> call_result) \<Rightarrow> http_event list \<Rightarrow> nat \<Rightarrow> call_result" where
  "request_body self script retries =
     (case script of
        [] \<Rightarrow> (Waiting, [], [])
      | ev # rest \<Rightarrow>
          except_timeout self retries
            (case ev of
               TransportFailure \<Rightarrow> (Raised TransportError, rest, [])
             | TimeoutEvent \<Rightarrow> (Raised TimeoutError, rest, [])
             | Response status ra b \<Rightarrow>
                 if status = 429 then
                   (case retry_after_seconds ra of
                      Inl e \<Rightarrow> (Raised e, rest, [])
                    | Inr n \<Rightarrow> slept n (self rest retries))
                 else if 500 \<le> status \<and> retries < MAX_RETRIES then
                   slept (5 * (retries + 1)) (self rest (retries + 1))
                 else if status = 204 then (Returned (JObj []), rest, [])
                 else if \<not> response_ok status then (Raised (ApiError status), rest, [])
                 else (case b of
                         NoBody \<Rightarrow> (Returned (JObj []), rest, [])
                       | JsonBody j \<Rightarrow> (Returned j, rest, [])
                       | BadBody \<Rightarrow> (Raised JsonError, rest, []))))"

text \<open>
  Every call consumes one answer before it calls itself, so the depth of the recursion
  is at most the length of the list: \<open>request_upto k\<close> is the function with \<open>k\<close> nested
  calls. Every retry is one more frame of the interpreter, which allows
  \<open>sys.getrecursionlimit()\<close> frames, 1000 unless it is set; the frames of the callers and
  of the HTTP library count as well, so in a run fewer calls can nest. The call that
  would exceed the limit raises \<open>RecursionError\<close>, which no clause of the function
  catches.
\<close>

definition recursion_limit :: nat where
  "recursion_limit = 1000"

primrec request_upto :: "nat \<Rightarrow> http_event list \<Rightarrow> nat \<Rightarrow> call_result" where
  "request_upto 0 =
     (\<lambda>script retries. if script = [] then (Waiting, script, [])
                        else (Raised RecursionError, script, []))"
| "request_upto (Suc k) = request_body (request_upto k)"

definition JiraClient_request :: "http_event list \<Rightarrow> nat \<Rightarrow> call_result" where
  "JiraClient_request script retries =
     request_upto (min (length script) recursion_limit) script retries"

definition rate_limited :: http_event where
  "rate_limited = Response 429 Absent NoBody"

section \<open>Properties of the retrying transport\<close>

text \<open>
  A rate-limit answer leaves the retry counter where it was: after any number \<open>n\<close> of
  them within the recursion limit the call has neither returned nor raised, and it has
  slept \<open>n\<close> times. Beyond the limit it ends in \<open>RecursionError\<close>.
\<close>

lemma request_upto_rate_limited:
  "request_upto k (replicate k rate_limited @ rest) retries
     = (if rest = [] then Waiting else Raised RecursionError, rest, replicate k 60)"
proof (induction k)
  case 0
  show ?case by simp
next
  case (Suc k)
  have "request_upto (Suc k) (Response 429 Absent NoBody # replicate k rate_limited @ rest) retries
        = (if rest = [] then Waiting else Raised RecursionError, rest, 60 # replicate k 60)"
    using Suc.IH
    by (simp add: request_body_def except_timeout_def retry_after_seconds_def slept_def)
  then have "request_upto (Suc k) (rate_limited # replicate k rate_limited @ rest) retries
        = (if rest = [] then Waiting else Raised RecursionError, rest, 60 # replicate k 60)"
    by (simp only: rate_limited_def [symmetric])
  then show ?case by simp
qed

lemma request_rate_limited_still_waiting:
  assumes "n \<le> recursion_limit"
  shows "JiraClient_request (replicate n rate_limited) retries = (Waiting, [], replicate n 60)"
proof -
  have "min n recursion_limit = n" using assms by simp
  then show ?thesis
    using request_upto_rate_limited [of n "[]" retries] by (simp add: JiraClient_request_def)
qed

lemma request_rate_limited_recursion_error:
  "JiraClient_request (replicate (recursion_limit + Suc m) rate_limited) retries
     = (Raised RecursionError, replicate (Suc m) rate_limited, replicate recursion_limit 60)"
proof -
  have "replicate (recursion_limit + Suc m) rate_limited
          = replicate recursion_limit rate_limited @ replicate (Suc m) rate_limited"
    by (rule replicate_add)
  moreover have "min (recursion_limit + Suc m) recursion_limit = recursion_limit" by simp
  ultimately show ?thesis
    using request_upto_rate_limited [of recursion_limit "replicate (Suc m) rate_limited" retries]
    by (simp add: JiraClient_request_def del: replicate_Suc replicate.simps)
qed

text \<open>
  C5. Four rate-limit answers followed by a success: the call is retried four times,
  one more than \<open>MAX_RETRIES\<close>, and no failure is reported for it.
\<close>

theorem request_retries_rate_limit_beyond_MAX_RETRIES:
  "JiraClient_request
     [rate_limited, rate_limited, rate_limited, rate_limited,
      Response 200 Absent (JsonBody (JObj []))] 0
   = (Returned (JObj []), [], [60, 60, 60, 60])
   \<and> MAX_RETRIES = 3"
  by (simp add: JiraClient_request_def request_body_def except_timeout_def slept_def
      retry_after_seconds_def response_ok_def MAX_RETRIES_def rate_limited_def
      recursion_limit_def)

section \<open>The client of jira-post-import-fix.py\<close>

text \<open>
  The requests that this script sends. The remote service is a function from the number
  of HTTP requests sent so far to the answer to the next one; the client keeps the list of
  the requests it has sent, one entry per attempt.
\<close>

datatype http_request =
  GetIssueLinks string
| PostIssueLink string string string
| PutIssue string

type_synonym remote = "nat \<Rightarrow> http_event"

text \<open>
  \<open>JiraClient.request\<close>: at most three attempts. An answer that is \<open>ok\<close> returns; a 429
  goes to the next attempt; any other status raises. A timeout goes to the next attempt,
  and raises on the third. When the loop ends, the function ends without a \<open>return\<close>: its
  value is \<open>None\<close>.
\<close>

function request_from ::
  "remote \<Rightarrow> http_request \<Rightarrow> nat \<Rightarrow> http_request list
   \<Rightarrow> (error + json) \<times> http_request list" where
  "request_from remote req attempt sent =
     (if 3 \<le> attempt then (Inr JNull, sent)
      else
        (case remote (length sent) of
           Response status ra b \<Rightarrow>
             if response_ok status then
               (case b of
                  NoBody \<Rightarrow> (Inr (JObj []), sent @ [req])
                | JsonBody j \<Rightarrow> (Inr j, sent @ [req])
                | BadBody \<Rightarrow> (Inl JsonError, sent @ [req]))
             else if status = 429 then request_from remote req (attempt + 1) (sent @ [req])
             else (Inl (ApiError status), sent @ [req])
         | TimeoutEvent \<Rightarrow>
             if attempt < 2 then request_from remote req (attempt + 1) (sent @ [req])
             else (Inl TimeoutError, sent @ [req])
         | TransportFailure \<Rightarrow> (Inl TransportError, sent @ [req])))"
  by pat_completeness auto
termination
  by (relation "measure (\<lambda>(remote, req, attempt, sent). 3 - attempt)") auto

declare request_from.simps [simp del]

definition FixClient_request ::
  "remote \<Rightarrow> bool \<Rightarrow> http_request \<Rightarrow> http_request list
   \<Rightarrow> (error + json) \<times> http_request list" where
  "FixClient_request remote enabled req sent =
     (if \<not> enabled then (Inr (JObj []), sent) else request_from remote req 0 sent)"

text \<open>\<open>create_link\<close>: \<open>True\<close> unless the request raised.\<close>

definition create_link ::
  "remote \<Rightarrow> bool \<Rightarrow> string \<Rightarrow> string \<Rightarrow> string \<Rightarrow> http_request list
   \<Rightarrow> bool \<times> http_request list" where
  "create_link remote enabled from_key to_key link_type sent =
     (if \<not> enabled then (True, sent)
      else (case FixClient_request remote enabled (PostIssueLink link_type from_key to_key) sent of
              (Inr result, sent') \<Rightarrow> (True, sent')
            | (Inl e, sent') \<Rightarrow> (False, sent')))"

subsection \<open>Reading the links of an issue\<close>

text \<open>
  The operations of Python on a parsed JSON value that \<open>get_existing_links\<close> uses;
  \<open>None\<close> is an exception (\<open>AttributeError\<close>, \<open>TypeError\<close>, \<open>KeyError\<close>).
\<close>

fun contains :: "string \<Rightarrow> string \<Rightarrow> bool" where
  "contains p [] = (p = [])"
| "contains p (c # cs) = (startswith (c # cs) p \<or> contains p cs)"

definition py_get :: "json \<Rightarrow> string \<Rightarrow> json \<Rightarrow> json option" where
  "py_get d k dflt =
     (case d of
        JObj kvs \<Rightarrow> Some (case map_of kvs k of Some v \<Rightarrow> v | None \<Rightarrow> dflt)
      | _ \<Rightarrow> None)"

definition py_iter :: "json \<Rightarrow> json list option" where
  "py_iter j =
     (case j of
        JArr xs \<Rightarrow> Some xs
      | JObj kvs \<Rightarrow> Some (map (\<lambda>kv. JStr (fst kv)) kvs)
      | JStr s \<Rightarrow> Some (map (\<lambda>c. JStr [c]) s)
      | _ \<Rightarrow> None)"

definition py_in :: "string \<Rightarrow> json \<Rightarrow> bool option" where
  "py_in k j =
     (case j of
        JObj kvs \<Rightarrow> Some (map_of kvs k \<noteq> None)
      | JArr xs \<Rightarrow> Some (JStr k \<in> set xs)
      | JStr s \<Rightarrow> Some (contains k s)
      | _ \<Rightarrow> None)"

definition py_index :: "json \<Rightarrow> string \<Rightarrow> json option" where
  "py_index j k = (case j of JObj kvs \<Rightarrow> map_of kvs k | _ \<Rightarrow> None)"

definition hashable :: "json \<Rightarrow> bool" where
  "hashable j = (case j of JArr xs \<Rightarrow> False | JObj kvs \<Rightarrow> False | _ \<Rightarrow> True)"

text \<open>\<open>if k in link: links.add(link[k]["key"])\<close>; the set is kept as a list.\<close>

definition add_link :: "string \<Rightarrow> json \<Rightarrow> json list \<Rightarrow> json list option" where
  "add_link k link links =
     (case py_in k link of
        None \<Rightarrow> None
      | Some False \<Rightarrow> Some links
      | Some True \<Rightarrow>
          (case py_index link k of
             None \<Rightarrow> None
           | Some v \<Rightarrow>
               (case py_index v ''key'' of
                  None \<Rightarrow> None
                | Some key \<Rightarrow> if hashable key then Some (key # links) else None)))"

fun collect_links :: "json list \<Rightarrow> json list \<Rightarrow> json list option" where
  "collect_links [] links = Some links"
| "collect_links (link # rest) links =
     (case add_link ''outwardIssue'' link links of
        None \<Rightarrow> None
      | Some links1 \<Rightarrow>
          (case add_link ''inwardIssue'' link links1 of
             None \<Rightarrow> None
           | Some links2 \<Rightarrow> collect_links rest links2))"

definition links_of_result :: "json \<Rightarrow> json list option" where
  "links_of_result result =
     (case py_get result ''fields'' (JObj []) of
        None \<Rightarrow> None
      | Some fields \<Rightarrow>
          (case py_get fields ''issuelinks'' (JArr []) of
             None \<Rightarrow> None
           | Some ls \<Rightarrow>
               (case py_iter ls of
                  None \<Rightarrow> None
                | Some xs \<Rightarrow> collect_links xs [])))"

text \<open>\<open>get_existing_links\<close>: every exception gives the empty set.\<close>

definition get_existing_links ::
  "remote \<Rightarrow> bool \<Rightarrow> string \<Rightarrow> http_request list \<Rightarrow> json list \<times> http_request list" where
  "get_existing_links remote enabled issue_key sent =
     (if \<not> enabled then ([], sent)
      else (case FixClient_request remote enabled (GetIssueLinks issue_key) sent of
              (Inl e, sent') \<Rightarrow> ([], sent')
            | (Inr result, sent') \<Rightarrow>
                (case links_of_result result of
                   None \<Rightarrow> ([], sent')
                 | Some links \<Rightarrow> (links, sent'))))"

subsection \<open>Creating the links of a document\<close>

text \<open>
  The body of \<open>create_missing_links\<close> for one document: a story file with the field
  \<open>Blocks\<close>, or a task file with the field \<open>Unlocks\<close>. The state is the counter
  \<open>result.links_created\<close> and the requests sent.
\<close>

fun link_refs ::
  "remote \<Rightarrow> bool \<Rightarrow> bool \<Rightarrow> string \<Rightarrow> json list \<Rightarrow> string list
   \<Rightarrow> nat \<times> http_request list \<Rightarrow> nat \<times> http_request list" where
  "link_refs remote enabled dry_run src existing [] st = st"
| "link_refs remote enabled dry_run src existing (r # refs) (n, sent) =
     (let ref = strip r in
      if is_jira_key ref \<and> JStr ref \<notin> set existing then
        (if \<not> dry_run then
           (case create_link remote enabled src ref ''Blocks'' sent of
              (created, sent') \<Rightarrow>
                link_refs remote enabled dry_run src existing refs
                  (if created then n + 1 else n, sent'))
         else link_refs remote enabled dry_run src existing refs (n, sent))
      else link_refs remote enabled dry_run src existing refs (n, sent))"

definition create_links_of_document ::
  "remote \<Rightarrow> bool \<Rightarrow> bool \<Rightarrow> string \<Rightarrow> string
   \<Rightarrow> nat \<times> http_request list \<Rightarrow> nat \<times> http_request list" where
  "create_links_of_document remote enabled dry_run label content st =
     (case st of (n, sent) \<Rightarrow>
       (let src = extract_jira_key content in
        if src = [] then (n, sent)
        else
          (case (if \<not> dry_run then get_existing_links remote enabled src sent else ([], sent)) of
             (existing, sent1) \<Rightarrow>
               (case search_field label content of
                  None \<Rightarrow> (n, sent1)
                | Some g \<Rightarrow>
                    if lower (strip g) \<in> set ['''', ''-'', ''none''] then (n, sent1)
                    else link_refs remote enabled dry_run src existing
                           (split_on CHR '','' (strip g)) (n, sent1)))))"

text \<open>
  A remote service that answers the first request with an issue that has no links, and
  every later request with 429.
\<close>

definition always_rate_limited_after_first :: remote where
  "always_rate_limited_after_first n =
     (if n = 0
      then Response 200 Absent (JsonBody (JObj [(''fields'', JObj [(''issuelinks'', JArr [])])]))
      else Response 429 Absent NoBody)"

section \<open>Properties of link creation\<close>

text \<open>
  C6. A link whose three attempts are all answered with 429 was not created, and
  \<open>create_link\<close> returns \<open>True\<close>: the retry loop of \<open>request\<close> ends without raising.
  For a story \<open>ARGUS-1\<close> that blocks \<open>ARGUS-2\<close>, \<open>create_missing_links\<close> fetches the
  links of \<open>ARGUS-1\<close>, sends the link three times, and counts one link created.
\<close>

theorem create_link_reports_rate_limited_link_as_created:
  "create_link (\<lambda>n. Response 429 Absent NoBody) True ''ARGUS-1'' ''ARGUS-2'' ''Blocks'' []
   = (True,
      [PostIssueLink ''Blocks'' ''ARGUS-1'' ''ARGUS-2'',
       PostIssueLink ''Blocks'' ''ARGUS-1'' ''ARGUS-2'',
       PostIssueLink ''Blocks'' ''ARGUS-1'' ''ARGUS-2''])
   \<and> create_links_of_document always_rate_limited_after_first True False ''Blocks''
       ''| JIRA Key | ARGUS-1 |\<newline>| Blocks | ARGUS-2 |'' (0, [])
   = (1,
      [GetIssueLinks ''ARGUS-1'',
       PostIssueLink ''Blocks'' ''ARGUS-1'' ''ARGUS-2'',
       PostIssueLink ''Blocks'' ''ARGUS-1'' ''ARGUS-2'',
       PostIssueLink ''Blocks'' ''ARGUS-1'' ''ARGUS-2''])"
  by code_simp

section \<open>Persisting a remote key into a document\<close>

text \<open>
  \<open>update_jira_key_in_file\<close> of jira-sync-comprehensive.py substitutes
  \<open>(\|\s*JIRA Key\s*\|)\s*[^|]*\s*(\|)\<close> by the template \<open>\1 key \2\<close>. Behind the
  label, \<open>\s*[^|]*\s*\<close> takes every character up to the next bar, so the expression
  matches where the label matches and a bar follows later in the text.

  The key is spliced into the replacement template, and \<open>re.sub\<close> parses the template
  before it looks for a match: a backslash in the key begins an escape, which is a group
  reference, a character, or an exception. The parser is \<open>parse_template\<close> of the module
  \<open>re\<close>, here as in CPython 3.11, for an expression with \<open>groups\<close> groups and no named
  group; \<open>None\<close> is an exception (\<open>re.error\<close>, or \<open>IndexError\<close> for a group name).
\<close>

datatype piece = Literal char | Group nat

definition backslash :: char where
  "backslash = CHR 0x5C"

definition is_octal :: "char \<Rightarrow> bool" where
  "is_octal c = (let n = (of_char c :: nat) in 48 \<le> n \<and> n \<le> 55)"

definition digit_value :: "char \<Rightarrow> nat" where
  "digit_value c = of_char c - 48"

definition number :: "nat \<Rightarrow> string \<Rightarrow> nat" where
  "number base ds = foldl (\<lambda>v c. base * v + digit_value c) 0 ds"

text \<open>The escapes \<open>\a \b \f \n \r \t \v \\\<close>.\<close>

definition escape_char :: "char \<Rightarrow> char option" where
  "escape_char c =
     (if c = CHR ''a'' then Some (char_of (7 :: nat))
      else if c = CHR ''b'' then Some (char_of (8 :: nat))
      else if c = CHR ''f'' then Some (char_of (12 :: nat))
      else if c = CHR ''n'' then Some (char_of (10 :: nat))
      else if c = CHR ''r'' then Some (char_of (13 :: nat))
      else if c = CHR ''t'' then Some (char_of (9 :: nat))
      else if c = CHR ''v'' then Some (char_of (11 :: nat))
      else if c = backslash then Some backslash
      else None)"

text \<open>
  \<open>int(name)\<close> for the name of \<open>\g<name>\<close>, with the test \<open>index < 0\<close> that follows it:
  white space around, a sign, and digits with single underscores between them. A name that
  is an identifier is no number, and no group has a name.
\<close>

definition int_space :: "char \<Rightarrow> bool" where
  "int_space c =
     (let n = (of_char c :: nat) in (9 \<le> n \<and> n \<le> 13) \<or> n = 32 \<or> n = 133 \<or> n = 160)"

fun underscores_ok :: "string \<Rightarrow> bool" where
  "underscores_ok [] = False"
| "underscores_ok [c] = is_digit c"
| "underscores_ok (c # d # s) =
     (if is_digit c then underscores_ok (d # s)
      else c = CHR ''_'' \<and> is_digit d \<and> underscores_ok (d # s))"

definition digits_ok :: "string \<Rightarrow> bool" where
  "digits_ok s = (s \<noteq> [] \<and> is_digit (hd s) \<and> underscores_ok s)"

definition py_int :: "string \<Rightarrow> nat option" where
  "py_int name =
     (let s = dropWhile int_space name;
          negative = (s \<noteq> [] \<and> hd s = CHR ''-'');
          s1 = (if s \<noteq> [] \<and> (hd s = CHR ''-'' \<or> hd s = CHR ''+'') then tl s else s);
          body = takeWhile (\<lambda>c. is_digit c \<or> c = CHR ''_'') s1;
          rest = dropWhile (\<lambda>c. is_digit c \<or> c = CHR ''_'') s1;
          v = number 10 (filter is_digit body)
      in if \<not> list_all int_space rest \<or> \<not> digits_ok body then None
         else if negative \<and> v \<noteq> 0 then None
         else Some v)"

definition then_parse :: "piece \<Rightarrow> piece list option \<Rightarrow> piece list option" where
  "then_parse p r = map_option ((#) p) r"

lemma length_tl_dropWhile:
  "length (dropWhile P xs) - Suc 0 < Suc (Suc (Suc (length xs)))"
proof -
  have "length (dropWhile P xs) \<le> length xs" by (rule length_dropWhile_le)
  then show ?thesis by simp
qed

function parse_template :: "nat \<Rightarrow> string \<Rightarrow> piece list option" where
  "parse_template groups [] = Some []"
| "parse_template groups (c # s) =
     (if c \<noteq> backslash then then_parse (Literal c) (parse_template groups s)
      else
        (case s of
           [] \<Rightarrow> None
         | d # s1 \<Rightarrow>
             if d = CHR ''g'' then
               (case s1 of
                  [] \<Rightarrow> None
                | lt # s2 \<Rightarrow>
                    if lt \<noteq> CHR ''<'' \<or> dropWhile (\<lambda>x. x \<noteq> CHR ''>'') s2 = [] then None
                    else
                      (case py_int (takeWhile (\<lambda>x. x \<noteq> CHR ''>'') s2) of
                         None \<Rightarrow> None
                       | Some i \<Rightarrow>
                           if groups < i then None
                           else then_parse (Group i)
                                  (parse_template groups
                                     (tl (dropWhile (\<lambda>x. x \<noteq> CHR ''>'') s2)))))
             else if d = CHR ''0'' then
               (case s1 of
                  [] \<Rightarrow> Some [Literal (char_of (0 :: nat))]
                | e # s2 \<Rightarrow>
                    if \<not> is_octal e
                    then then_parse (Literal (char_of (0 :: nat))) (parse_template groups (e # s2))
                    else
                      (case s2 of
                         [] \<Rightarrow> Some [Literal (char_of (number 8 [e]))]
                       | f # s3 \<Rightarrow>
                           if \<not> is_octal f
                           then then_parse (Literal (char_of (number 8 [e])))
                                  (parse_template groups (f # s3))
                           else then_parse (Literal (char_of (number 8 [e, f])))
                                  (parse_template groups s3)))
             else if is_digit d then
               (case s1 of
                  [] \<Rightarrow> if groups < digit_value d then None else Some [Group (digit_value d)]
                | e # s2 \<Rightarrow>
                    if \<not> is_digit e
                    then (if groups < digit_value d then None
                          else then_parse (Group (digit_value d)) (parse_template groups (e # s2)))
                    else
                      (case s2 of
                         [] \<Rightarrow> if groups < number 10 [d, e] then None
                               else Some [Group (number 10 [d, e])]
                       | f # s3 \<Rightarrow>
                           if is_octal d \<and> is_octal e \<and> is_octal f
                           then (if 255 < number 8 [d, e, f] then None
                                 else then_parse (Literal (char_of (number 8 [d, e, f])))
                                        (parse_template groups s3))
                           else if groups < number 10 [d, e] then None
                           else then_parse (Group (number 10 [d, e]))
                                  (parse_template groups (f # s3))))
             else
               (case escape_char d of
                  Some x \<Rightarrow> then_parse (Literal x) (parse_template groups s1)
                | None \<Rightarrow>
                    if is_upper d \<or> is_lower_az d then None
                    else then_parse (Literal backslash)
                           (then_parse (Literal d) (parse_template groups s1)))))"
  by pat_completeness auto
termination
  by (relation "measure (\<lambda>(groups, s). length s)") (auto simp: length_tl_dropWhile)

text \<open>The template \<open>rf'\1 {jira_key} \2'\<close> for the expression, which has two groups.\<close>

definition key_template :: "string \<Rightarrow> piece list option" where
  "key_template jira_key =
     parse_template 2 ([backslash, CHR ''1'', CHR '' ''] @ jira_key @ [CHR '' '', backslash, CHR ''2''])"

text \<open>
  The expression at the start of a text: group 1, the characters up to the next bar, and
  the text behind that bar, which is group 2.
\<close>

definition match_jira_key_cell :: "string \<Rightarrow> (string \<times> string \<times> string) option" where
  "match_jira_key_cell s =
     (case match_label ''JIRA Key'' s of
        None \<Rightarrow> None
      | Some (lab, s5) \<Rightarrow>
          (case dropWhile not_pipe s5 of
             [] \<Rightarrow> None
           | e # rest \<Rightarrow> Some (lab, takeWhile not_pipe s5, rest)))"

lemma match_jira_key_cell_whole:
  "match_jira_key_cell s = Some (lab, mid, rest) \<Longrightarrow> s = lab @ mid @ CHR ''|'' # rest"
proof -
  assume "match_jira_key_cell s = Some (lab, mid, rest)"
  then obtain s5 e where l: "match_label ''JIRA Key'' s = Some (lab, s5)"
    and d: "dropWhile not_pipe s5 = e # rest" and m: "mid = takeWhile not_pipe s5"
    by (auto simp: match_jira_key_cell_def split: option.splits list.splits)
  from d have "e = CHR ''|''" by (rule dropWhile_not_pipe_Cons)
  with d have "s5 = mid @ CHR ''|'' # rest" unfolding m by (simp add: dropWhile_eq_split)
  moreover from l have "s = lab @ s5" by (rule match_label_whole)
  ultimately show ?thesis by simp
qed

lemma match_jira_key_cell_shorter:
  "match_jira_key_cell s = Some (lab, mid, rest) \<Longrightarrow> length rest < length s"
  by (drule match_jira_key_cell_whole) simp

text \<open>What the template gives for one match: group 0 is the whole match.\<close>

definition expand :: "piece list \<Rightarrow> string \<Rightarrow> string \<Rightarrow> string \<Rightarrow> string" where
  "expand ps g0 g1 g2 =
     concat (map (\<lambda>p. case p of
                         Literal c \<Rightarrow> [c]
                       | Group i \<Rightarrow> if i = 0 then g0 else if i = 1 then g1 else g2) ps)"

function sub_jira_key :: "piece list \<Rightarrow> string \<Rightarrow> string" where
  "sub_jira_key ps [] = []"
| "sub_jira_key ps (c # cs) =
     (case match_jira_key_cell (c # cs) of
        None \<Rightarrow> c # sub_jira_key ps cs
      | Some (lab, mid, rest) \<Rightarrow>
          expand ps (lab @ mid @ ''|'') lab ''|'' @ sub_jira_key ps rest)"
  by pat_completeness auto
termination
  by (relation "measure (\<lambda>(ps, s). length s)") (auto dest: match_jira_key_cell_shorter)

text \<open>
  The files of the project: a path has a content, or there is no such file and reading it
  raises. The function returns the files and the flag, or the exception: of
  \<open>read_text\<close>, or of the template.
\<close>

datatype update_error = FileNotFound | TemplateError

type_synonym files = "string \<rightharpoonup> string"

definition update_jira_key_in_file ::
  "files \<Rightarrow> string \<Rightarrow> string \<Rightarrow> update_error + files \<times> bool" where
  "update_jira_key_in_file fs file_path jira_key =
     (case fs file_path of
        None \<Rightarrow> Inl FileNotFound
      | Some content \<Rightarrow>
          (case key_template jira_key of
             None \<Rightarrow> Inl TemplateError
           | Some replacement \<Rightarrow>
               (let new_content = sub_jira_key replacement content
                in if new_content \<noteq> content then Inr (fs(file_path \<mapsto> new_content), True)
                   else Inr (fs, False))))"

text \<open>Whether a text has a row that the expression matches.\<close>

fun has_jira_key_row :: "string \<Rightarrow> bool" where
  "has_jira_key_row [] = False"
| "has_jira_key_row (c # cs) =
     (match_jira_key_cell (c # cs) \<noteq> None \<or> has_jira_key_row cs)"

lemma sub_jira_key_no_row: "\<not> has_jira_key_row s \<Longrightarrow> sub_jira_key ps s = s"
  by (induction s) (auto split: option.splits)

text \<open>A key without a backslash is literal text in the template.\<close>

lemma parse_template_plain:
  "backslash \<notin> set k \<Longrightarrow>
     parse_template g (k @ r) = map_option ((@) (map Literal k)) (parse_template g r)"
proof (induction k)
  case Nil
  show ?case by (cases "parse_template g r") simp_all
next
  case (Cons a k)
  then have "a \<noteq> backslash" "backslash \<notin> set k" by auto
  then show ?case
    using Cons.IH by (cases "parse_template g r") (simp_all add: then_parse_def)
qed

lemma key_template_plain:
  assumes "backslash \<notin> set k"
  shows "key_template k
           = Some (Group 1 # Literal CHR '' '' # map Literal k @ [Literal CHR '' '', Group 2])"
proof -
  have 1: "parse_template 2 [CHR '' '', backslash, CHR ''2''] = Some [Literal CHR '' '', Group 2]"
    by code_simp
  have 2: "parse_template 2 (k @ [CHR '' '', backslash, CHR ''2''])
             = Some (map Literal k @ [Literal CHR '' '', Group 2])"
    unfolding parse_template_plain [OF assms] 1 by simp
  have 3: "parse_template 2 (CHR '' '' # k @ [CHR '' '', backslash, CHR ''2''])
             = Some (Literal CHR '' '' # map Literal k @ [Literal CHR '' '', Group 2])"
    using 2 by (simp add: then_parse_def backslash_def)
  have "parse_template 2 (backslash # CHR ''1'' # CHR '' '' # k @ [CHR '' '', backslash, CHR ''2''])
          = then_parse (Group 1)
              (parse_template 2 (CHR '' '' # k @ [CHR '' '', backslash, CHR ''2'']))"
    by (simp add: is_digit_def digit_value_def del: parse_template.simps
        add: parse_template.simps(2) [of 2 backslash])
  then show ?thesis unfolding 3 by (simp add: key_template_def then_parse_def)
qed

lemma expand_plain:
  "expand (Group 1 # Literal CHR '' '' # map Literal k @ [Literal CHR '' '', Group 2]) g0 g1 g2
     = g1 @ '' '' @ k @ '' '' @ g2"
proof -
  have "concat (map (\<lambda>p. case p of Literal c \<Rightarrow> [c]
                      | Group i \<Rightarrow> if i = 0 then g0 else if i = 1 then g1 else g2)
                  (map Literal k)) = k"
    by (induction k) simp_all
  then show ?thesis by (simp add: expand_def)
qed

section \<open>The creation phases of jira-sync-comprehensive.py\<close>

text \<open>
  The entities that \<open>collect_bmad_data\<close> hands to \<open>sync_to_jira\<close>, with the fields that
  the three creation phases read or write.
\<close>

record task =
  task_id :: string
  task_title :: string
  task_file_path :: string
  task_jira_key :: string

record story =
  story_id :: string
  story_title :: string
  story_file_path :: string
  story_jira_key :: string
  story_tasks :: "task list"

record epic =
  epic_id :: string
  epic_name :: string
  epic_file_path :: string
  epic_jira_key :: string
  epic_stories :: "story list"

text \<open>
  \<open>SyncState.data\<close>: the keys recorded in the state file, by local id.
\<close>

record sync_state =
  epic_keys :: "string \<rightharpoonup> string"
  story_keys :: "string \<rightharpoonup> string"
  task_keys :: "string \<rightharpoonup> string"

text \<open>
  What the run asks of the client: \<open>create_issue\<close> with the issue type, the summary and
  the parent key, recorded with its outcome (the key of the new issue, or the exception),
  and \<open>set_epic_link\<close>. The outcome of a \<open>create_issue\<close> is decided by the remote
  service: it is a function of the number of calls made before. \<open>set_epic_link\<close> is called
  inside a \<open>try\<close> that discards its exceptions, so its outcome changes nothing.
\<close>

datatype remote_call =
  CreateIssue string string "string option" "error + string"
| SetEpicLink string string

type_synonym creating = "nat \<Rightarrow> error + string"

record stats =
  epics_created :: nat
  stories_created :: nat
  tasks_created :: nat
  skipped :: nat
  errors :: nat

record world =
  state :: sync_state
  fs :: files
  calls :: "remote_call list"
  stats :: stats

definition create_issue ::
  "creating \<Rightarrow> world \<Rightarrow> string \<Rightarrow> string \<Rightarrow> string option \<Rightarrow> (error + string) \<times> world" where
  "create_issue remote w issue_type summary parent_key =
     (let answer = remote (length (calls w))
      in (answer, w\<lparr>calls := calls w @ [CreateIssue issue_type summary parent_key answer]\<rparr>))"

text \<open>\<open>state.get_..._key(id) or entity.jira_key\<close>: \<open>None\<close> and the empty string are false.\<close>

definition key_or :: "string option \<Rightarrow> string \<Rightarrow> string" where
  "key_or recorded doc_key =
     (case recorded of None \<Rightarrow> doc_key | Some k \<Rightarrow> if k \<noteq> [] then k else doc_key)"

definition count_skipped :: "world \<Rightarrow> world" where
  "count_skipped w = w\<lparr>stats := (stats w)\<lparr>skipped := skipped (stats w) + 1\<rparr>\<rparr>"

definition count_error :: "world \<Rightarrow> world" where
  "count_error w = w\<lparr>stats := (stats w)\<lparr>errors := errors (stats w) + 1\<rparr>\<rparr>"

text \<open>
  \<open>update_jira_key_in_file(path, key)\<close> as the phases call it: inside the \<open>try\<close> of the
  creation, with its result dropped. An exception is counted as an error of the creation.
\<close>

definition persist_key :: "world \<Rightarrow> string \<Rightarrow> string \<Rightarrow> world" where
  "persist_key w file_path jira_key =
     (case update_jira_key_in_file (fs w) file_path jira_key of
        Inl e \<Rightarrow> count_error w
      | Inr (fs', changed) \<Rightarrow> w\<lparr>fs := fs'\<rparr>)"

text \<open>A \<open>for\<close> loop over entities that updates the world and the entity.\<close>

fun for_each :: "('w \<Rightarrow> 'a \<Rightarrow> 'w \<times> 'a) \<Rightarrow> 'w \<Rightarrow> 'a list \<Rightarrow> 'w \<times> 'a list" where
  "for_each f w [] = (w, [])"
| "for_each f w (x # xs) =
     (case f w x of (w1, x') \<Rightarrow>
        (case for_each f w1 xs of (w2, xs') \<Rightarrow> (w2, x' # xs')))"

text \<open>Phase 1, the body of the loop for one epic.\<close>

definition phase1_epic :: "creating \<Rightarrow> bool \<Rightarrow> bool \<Rightarrow> world \<Rightarrow> epic \<Rightarrow> world \<times> epic" where
  "phase1_epic remote dry_run resume w e =
     (let existing_key = key_or (epic_keys (state w) (epic_id e)) (epic_jira_key e) in
      if resume \<and> existing_key \<noteq> [] then (count_skipped w, e)
      else if dry_run
      then (w\<lparr>stats := (stats w)\<lparr>epics_created := epics_created (stats w) + 1\<rparr>\<rparr>, e)
      else
        (case create_issue remote w ''Epic'' (epic_name e) None of
           (Inl err, w1) \<Rightarrow> (count_error w1, e)
         | (Inr jira_key, w1) \<Rightarrow>
             (persist_key
                (w1\<lparr>state := (state w1)\<lparr>epic_keys := (epic_keys (state w1))(epic_id e \<mapsto> jira_key)\<rparr>,
                    stats := (stats w1)\<lparr>epics_created := epics_created (stats w1) + 1\<rparr>\<rparr>)
                (epic_file_path e) jira_key,
              e\<lparr>epic_jira_key := jira_key\<rparr>)))"

text \<open>Phase 2, the body of the inner loop for one story of an epic with key \<open>epic_jira_key\<close>.\<close>

definition phase2_story ::
  "creating \<Rightarrow> bool \<Rightarrow> bool \<Rightarrow> string \<Rightarrow> world \<Rightarrow> story \<Rightarrow> world \<times> story" where
  "phase2_story remote dry_run resume epic_key w s =
     (let existing_key = key_or (story_keys (state w) (story_id s)) (story_jira_key s) in
      if resume \<and> existing_key \<noteq> [] then (count_skipped w, s\<lparr>story_jira_key := existing_key\<rparr>)
      else if dry_run
      then (w\<lparr>stats := (stats w)\<lparr>stories_created := stories_created (stats w) + 1\<rparr>\<rparr>, s)
      else
        (case create_issue remote w ''Story'' (''['' @ story_id s @ ''] '' @ story_title s) None of
           (Inl err, w1) \<Rightarrow> (count_error w1, s)
         | (Inr jira_key, w1) \<Rightarrow>
             (let w2 = w1\<lparr>state := (state w1)\<lparr>story_keys := (story_keys (state w1))(story_id s \<mapsto> jira_key)\<rparr>,
                          stats := (stats w1)\<lparr>stories_created := stories_created (stats w1) + 1\<rparr>\<rparr>;
                  w3 = (if epic_key \<noteq> []
                        then w2\<lparr>calls := calls w2 @ [SetEpicLink jira_key epic_key]\<rparr>
                        else w2)
              in (persist_key w3 (story_file_path s) jira_key,
                  s\<lparr>story_jira_key := jira_key\<rparr>))))"

definition phase2_epic :: "creating \<Rightarrow> bool \<Rightarrow> bool \<Rightarrow> world \<Rightarrow> epic \<Rightarrow> world \<times> epic" where
  "phase2_epic remote dry_run resume w e =
     (let epic_key = key_or (epic_keys (state w) (epic_id e)) (epic_jira_key e) in
      case for_each (phase2_story remote dry_run resume epic_key) w (epic_stories e) of
        (w', ss) \<Rightarrow> (w', e\<lparr>epic_stories := ss\<rparr>))"

text \<open>Phase 3, the body of the innermost loop for one task of a story with key \<open>story_key\<close>.\<close>

definition phase3_task ::
  "creating \<Rightarrow> bool \<Rightarrow> bool \<Rightarrow> string \<Rightarrow> world \<Rightarrow> task \<Rightarrow> world \<times> task" where
  "phase3_task remote dry_run resume story_key w t =
     (let existing_key = key_or (task_keys (state w) (task_id t)) (task_jira_key t) in
      if resume \<and> existing_key \<noteq> [] then (count_skipped w, t\<lparr>task_jira_key := existing_key\<rparr>)
      else if dry_run
      then (w\<lparr>stats := (stats w)\<lparr>tasks_created := tasks_created (stats w) + 1\<rparr>\<rparr>, t)
      else
        (case create_issue remote w ''Subtask'' (''['' @ task_id t @ ''] '' @ task_title t)
                (Some story_key) of
           (Inl err, w1) \<Rightarrow> (count_error w1, t)
         | (Inr jira_key, w1) \<Rightarrow>
             (persist_key
                (w1\<lparr>state := (state w1)\<lparr>task_keys := (task_keys (state w1))(task_id t \<mapsto> jira_key)\<rparr>,
                    stats := (stats w1)\<lparr>tasks_created := tasks_created (stats w1) + 1\<rparr>\<rparr>)
                (task_file_path t) jira_key,
              t\<lparr>task_jira_key := jira_key\<rparr>)))"

definition phase3_story :: "creating \<Rightarrow> bool \<Rightarrow> bool \<Rightarrow> world \<Rightarrow> story \<Rightarrow> world \<times> story" where
  "phase3_story remote dry_run resume w s =
     (let story_key = key_or (story_keys (state w) (story_id s)) (story_jira_key s) in
      if story_key = [] then (w, s)
      else
        (case for_each (phase3_task remote dry_run resume story_key) w (story_tasks s) of
           (w', ts) \<Rightarrow> (w', s\<lparr>story_tasks := ts\<rparr>)))"

definition phase3_epic :: "creating \<Rightarrow> bool \<Rightarrow> bool \<Rightarrow> world \<Rightarrow> epic \<Rightarrow> world \<times> epic" where
  "phase3_epic remote dry_run resume w e =
     (case for_each (phase3_story remote dry_run resume) w (epic_stories e) of
        (w', ss) \<Rightarrow> (w', e\<lparr>epic_stories := ss\<rparr>))"

text \<open>
  \<open>sync_to_jira\<close> up to the end of phase 3. The reload of the keys and phase 4, the
  dependency links, follow in the source and create no issue.
\<close>

definition sync_to_jira ::
  "creating \<Rightarrow> epic list \<Rightarrow> world \<Rightarrow> bool \<Rightarrow> bool \<Rightarrow> bool \<Rightarrow> world \<times> epic list" where
  "sync_to_jira remote epics w dry_run resume links_only =
     (if links_only then (w, epics)
      else
        (case for_each (phase1_epic remote dry_run resume) w epics of
           (w1, epics1) \<Rightarrow>
             (case for_each (phase2_epic remote dry_run resume) w1 epics1 of
                (w2, epics2) \<Rightarrow> for_each (phase3_epic remote dry_run resume) w2 epics2)))"

definition empty_world :: "files \<Rightarrow> world" where
  "empty_world f =
     \<lparr>state = \<lparr>epic_keys = Map.empty, story_keys = Map.empty, task_keys = Map.empty\<rparr>,
      fs = f, calls = [],
      stats = \<lparr>epics_created = 0, stories_created = 0, tasks_created = 0, skipped = 0,
               errors = 0\<rparr>\<rparr>"

definition demo_epic :: epic where
  "demo_epic =
     \<lparr>epic_id = ''EPIC-1-PLATFORM'', epic_name = ''Platform'', epic_file_path = ''e/README.md'',
      epic_jira_key = [],
      epic_stories =
        [\<lparr>story_id = ''PLAT-001'', story_title = ''Cluster'', story_file_path = ''e/s1/story-1.md'',
          story_jira_key = [],
          story_tasks = [\<lparr>task_id = ''PLAT-001-T1'', task_title = ''Nodes'',
                          task_file_path = ''e/s1/tasks/task-01.md'', task_jira_key = []\<rparr>]\<rparr>]\<rparr>"

definition demo_files :: files where
  "demo_files =
     [''e/README.md'' \<mapsto> ''# Platform\<newline>| JIRA Key | |\<newline>'',
      ''e/s1/story-1.md'' \<mapsto> ''# PLAT-001: Cluster\<newline>| JIRA Key | |\<newline>'',
      ''e/s1/tasks/task-01.md'' \<mapsto> ''# PLAT-001-T1: Nodes\<newline>| JIRA Key | |\<newline>'']"

definition epic_fails :: creating where
  "epic_fails n = (if n = 0 then Inl (ApiError 400) else Inr (''ARGUS-'' @ [char_of (48 + n)]))"

definition recorded_story_key :: "world \<Rightarrow> story \<Rightarrow> string" where
  "recorded_story_key w s = key_or (story_keys (state w) (story_id s)) (story_jira_key s)"

lemma phase3_task_calls:
  assumes "phase3_task remote dry_run resume sk w t = (w', t')"
  shows "story_keys (state w') = story_keys (state w)
       \<and> (\<exists>new. calls w' = calls w @ new
            \<and> (\<forall>c \<in> set new. \<exists>summary out. c = CreateIssue ''Subtask'' summary (Some sk) out))"
  using assms
  by (auto simp: phase3_task_def create_issue_def persist_key_def count_skipped_def
      count_error_def Let_def split: if_splits sum.splits prod.splits)

lemma for_each_phase3_task_calls:
  assumes "for_each (phase3_task remote dry_run resume sk) w ts = (w', ts')"
  shows "story_keys (state w') = story_keys (state w)
       \<and> (\<exists>new. calls w' = calls w @ new
            \<and> (\<forall>c \<in> set new. \<exists>summary out. c = CreateIssue ''Subtask'' summary (Some sk) out))"
  using assms
proof (induction ts arbitrary: w w' ts')
  case Nil
  then show ?case by simp
next
  case (Cons t ts)
  obtain w1 t1 where s1: "phase3_task remote dry_run resume sk w t = (w1, t1)"
    by (cases "phase3_task remote dry_run resume sk w t")
  obtain w2 ts2 where s2: "for_each (phase3_task remote dry_run resume sk) w1 ts = (w2, ts2)"
    by (cases "for_each (phase3_task remote dry_run resume sk) w1 ts")
  from Cons.prems s1 s2 have w': "w' = w2" by simp
  from phase3_task_calls [OF s1] obtain n1 where
    a: "story_keys (state w1) = story_keys (state w)" "calls w1 = calls w @ n1"
       "\<forall>c \<in> set n1. \<exists>summary out. c = CreateIssue ''Subtask'' summary (Some sk) out"
    by blast
  from Cons.IH [OF s2] obtain n2 where
    b: "story_keys (state w2) = story_keys (state w1)" "calls w2 = calls w1 @ n2"
       "\<forall>c \<in> set n2. \<exists>summary out. c = CreateIssue ''Subtask'' summary (Some sk) out"
    by blast
  have "calls w' = calls w @ (n1 @ n2)" using a b w' by simp
  moreover have "\<forall>c \<in> set (n1 @ n2). \<exists>summary out. c = CreateIssue ''Subtask'' summary (Some sk) out"
    using a b by auto
  ultimately show ?case using a b w' by metis
qed

lemma phase3_story_calls:
  assumes "phase3_story remote dry_run resume w s = (w', s')"
  shows "story_keys (state w') = story_keys (state w)
       \<and> story_id s' = story_id s \<and> story_jira_key s' = story_jira_key s
       \<and> (\<exists>new. calls w' = calls w @ new
            \<and> (\<forall>c \<in> set new. recorded_story_key w s \<noteq> []
                  \<and> (\<exists>summary out.
                        c = CreateIssue ''Subtask'' summary (Some (recorded_story_key w s)) out)))"
proof (cases "recorded_story_key w s = []")
  case True
  with assms show ?thesis by (simp add: phase3_story_def recorded_story_key_def)
next
  case False
  obtain w1 ts1 where f: "for_each (phase3_task remote dry_run resume (recorded_story_key w s)) w
      (story_tasks s) = (w1, ts1)"
    by (cases "for_each (phase3_task remote dry_run resume (recorded_story_key w s)) w
      (story_tasks s)")
  with assms False have r: "w' = w1" "s' = s\<lparr>story_tasks := ts1\<rparr>"
    by (simp_all add: phase3_story_def recorded_story_key_def)
  from for_each_phase3_task_calls [OF f] False r show ?thesis by auto
qed

text \<open>A creation of a task issue whose parent is the recorded key of one of the stories.\<close>

definition task_under_story :: "world \<Rightarrow> story list \<Rightarrow> remote_call \<Rightarrow> bool" where
  "task_under_story w ss c =
     (\<exists>s \<in> set ss. recorded_story_key w s \<noteq> []
        \<and> (\<exists>summary out. c = CreateIssue ''Subtask'' summary (Some (recorded_story_key w s)) out))"

lemma recorded_story_key_cong:
  "story_keys (state w') = story_keys (state w) \<Longrightarrow> story_id s' = story_id s
   \<Longrightarrow> story_jira_key s' = story_jira_key s
   \<Longrightarrow> recorded_story_key w' s' = recorded_story_key w s"
  by (simp add: recorded_story_key_def)

lemma task_under_story_cong:
  "story_keys (state w') = story_keys (state w) \<Longrightarrow> task_under_story w' ss c = task_under_story w ss c"
  by (simp add: task_under_story_def recorded_story_key_def)

lemma for_each_phase3_story_calls:
  assumes "for_each (phase3_story remote dry_run resume) w ss = (w', ss')"
  shows "story_keys (state w') = story_keys (state w)
       \<and> (\<exists>new. calls w' = calls w @ new \<and> (\<forall>c \<in> set new. task_under_story w' ss' c))"
  using assms
proof (induction ss arbitrary: w w' ss')
  case Nil
  then show ?case by simp
next
  case (Cons s ss)
  obtain w1 s1 where s1: "phase3_story remote dry_run resume w s = (w1, s1)"
    by (cases "phase3_story remote dry_run resume w s")
  obtain w2 ss2 where s2: "for_each (phase3_story remote dry_run resume) w1 ss = (w2, ss2)"
    by (cases "for_each (phase3_story remote dry_run resume) w1 ss")
  from Cons.prems s1 s2 have r: "w' = w2" "ss' = s1 # ss2" by simp_all
  from phase3_story_calls [OF s1] obtain n1 where
    a: "story_keys (state w1) = story_keys (state w)"
       "story_id s1 = story_id s" "story_jira_key s1 = story_jira_key s"
       "calls w1 = calls w @ n1"
       "\<forall>c \<in> set n1. recorded_story_key w s \<noteq> []
          \<and> (\<exists>summary out. c = CreateIssue ''Subtask'' summary (Some (recorded_story_key w s)) out)"
    by blast
  from Cons.IH [OF s2] obtain n2 where
    b: "story_keys (state w2) = story_keys (state w1)" "calls w2 = calls w1 @ n2"
       "\<forall>c \<in> set n2. task_under_story w2 ss2 c"
    by blast
  have k: "recorded_story_key w2 s1 = recorded_story_key w s"
    using a b by (simp add: recorded_story_key_def)
  have "\<forall>c \<in> set n1. task_under_story w2 (s1 # ss2) c"
    using a(5) k by (auto simp: task_under_story_def)
  moreover have "\<forall>c \<in> set n2. task_under_story w2 (s1 # ss2) c"
    using b(3) by (auto simp: task_under_story_def)
  ultimately have "\<forall>c \<in> set (n1 @ n2). task_under_story w' ss' c"
    using r by auto
  moreover have "calls w' = calls w @ (n1 @ n2)" using a b r by simp
  moreover have "story_keys (state w') = story_keys (state w)" using a b r by simp
  ultimately show ?case by blast
qed

definition task_under_epics :: "world \<Rightarrow> epic list \<Rightarrow> remote_call \<Rightarrow> bool" where
  "task_under_epics w es c = (\<exists>e \<in> set es. task_under_story w (epic_stories e) c)"

lemma phase3_epic_calls:
  assumes "phase3_epic remote dry_run resume w e = (w', e')"
  shows "story_keys (state w') = story_keys (state w)
       \<and> (\<exists>new. calls w' = calls w @ new
            \<and> (\<forall>c \<in> set new. task_under_story w' (epic_stories e') c))"
proof -
  obtain w1 ss1 where f: "for_each (phase3_story remote dry_run resume) w (epic_stories e) = (w1, ss1)"
    by (cases "for_each (phase3_story remote dry_run resume) w (epic_stories e)")
  with assms have r: "w' = w1" "e' = e\<lparr>epic_stories := ss1\<rparr>"
    by (simp_all add: phase3_epic_def)
  from for_each_phase3_story_calls [OF f] r show ?thesis by simp
qed

lemma for_each_phase3_epic_calls:
  assumes "for_each (phase3_epic remote dry_run resume) w es = (w', es')"
  shows "story_keys (state w') = story_keys (state w)
       \<and> (\<exists>new. calls w' = calls w @ new \<and> (\<forall>c \<in> set new. task_under_epics w' es' c))"
  using assms
proof (induction es arbitrary: w w' es')
  case Nil
  then show ?case by simp
next
  case (Cons e es)
  obtain w1 e1 where s1: "phase3_epic remote dry_run resume w e = (w1, e1)"
    by (cases "phase3_epic remote dry_run resume w e")
  obtain w2 es2 where s2: "for_each (phase3_epic remote dry_run resume) w1 es = (w2, es2)"
    by (cases "for_each (phase3_epic remote dry_run resume) w1 es")
  from Cons.prems s1 s2 have r: "w' = w2" "es' = e1 # es2" by simp_all
  from phase3_epic_calls [OF s1] obtain n1 where
    a: "story_keys (state w1) = story_keys (state w)" "calls w1 = calls w @ n1"
       "\<forall>c \<in> set n1. task_under_story w1 (epic_stories e1) c"
    by blast
  from Cons.IH [OF s2] obtain n2 where
    b: "story_keys (state w2) = story_keys (state w1)" "calls w2 = calls w1 @ n2"
       "\<forall>c \<in> set n2. task_under_epics w2 es2 c"
    by blast
  have "\<forall>c \<in> set n1. task_under_epics w2 (e1 # es2) c"
    using a(3) task_under_story_cong [OF b(1)] by (auto simp: task_under_epics_def)
  moreover have "\<forall>c \<in> set n2. task_under_epics w2 (e1 # es2) c"
    using b(3) by (auto simp: task_under_epics_def)
  ultimately have "\<forall>c \<in> set (n1 @ n2). task_under_epics w' es' c"
    using r by auto
  moreover have "calls w' = calls w @ (n1 @ n2)" using a b r by simp
  moreover have "story_keys (state w') = story_keys (state w)" using a b r by simp
  ultimately show ?case by blast
qed

text \<open>Phases 1 and 2 create no task, and link a story only to a key that is not empty.\<close>

definition no_task_call :: "remote_call \<Rightarrow> bool" where
  "no_task_call c =
     (case c of
        CreateIssue issue_type summary parent out \<Rightarrow> issue_type \<noteq> ''Subtask''
      | SetEpicLink k epic_key \<Rightarrow> epic_key \<noteq> [])"

lemma phase1_epic_calls:
  assumes "phase1_epic remote dry_run resume w e = (w', e')"
  shows "\<exists>new. calls w' = calls w @ new \<and> (\<forall>c \<in> set new. no_task_call c)"
  using assms
  by (auto simp: phase1_epic_def create_issue_def persist_key_def count_skipped_def
      count_error_def no_task_call_def Let_def split: if_splits sum.splits prod.splits)

lemma phase2_story_calls:
  assumes "phase2_story remote dry_run resume ek w s = (w', s')"
  shows "\<exists>new. calls w' = calls w @ new \<and> (\<forall>c \<in> set new. no_task_call c)"
  using assms
  by (auto simp: phase2_story_def create_issue_def persist_key_def count_skipped_def
      count_error_def no_task_call_def Let_def split: if_splits sum.splits prod.splits)

lemma for_each_calls:
  assumes step: "\<And>w x w' x'. f w x = (w', x') \<Longrightarrow>
                   \<exists>new. calls w' = calls w @ new \<and> (\<forall>c \<in> set new. P c)"
    and "for_each f w xs = (w', xs')"
  shows "\<exists>new. calls w' = calls w @ new \<and> (\<forall>c \<in> set new. P c)"
  using assms(2)
proof (induction xs arbitrary: w w' xs')
  case Nil
  then show ?case by simp
next
  case (Cons x xs)
  obtain w1 x1 where s1: "f w x = (w1, x1)" by (cases "f w x")
  obtain w2 xs2 where s2: "for_each f w1 xs = (w2, xs2)" by (cases "for_each f w1 xs")
  from Cons.prems s1 s2 have r: "w' = w2" by simp
  from step [OF s1] obtain n1 where a: "calls w1 = calls w @ n1" "\<forall>c \<in> set n1. P c" by blast
  from Cons.IH [OF s2] obtain n2 where b: "calls w2 = calls w1 @ n2" "\<forall>c \<in> set n2. P c" by blast
  have "calls w' = calls w @ (n1 @ n2)" using a b r by simp
  moreover have "\<forall>c \<in> set (n1 @ n2). P c" using a b by auto
  ultimately show ?case by blast
qed

lemma phase2_epic_calls:
  assumes "phase2_epic remote dry_run resume w e = (w', e')"
  shows "\<exists>new. calls w' = calls w @ new \<and> (\<forall>c \<in> set new. no_task_call c)"
proof -
  let ?ek = "key_or (epic_keys (state w) (epic_id e)) (epic_jira_key e)"
  obtain w1 ss1 where f: "for_each (phase2_story remote dry_run resume ?ek) w (epic_stories e) = (w1, ss1)"
    by (cases "for_each (phase2_story remote dry_run resume ?ek) w (epic_stories e)")
  with assms have r: "w' = w1" by (simp add: phase2_epic_def)
  show ?thesis unfolding r
    by (rule for_each_calls [OF _ f]) (rule phase2_story_calls)
qed


definition all_created :: creating where
  "all_created n = Inr (''ARGUS-'' @ [char_of (48 + n)])"



section \<open>Properties of persisting a key\<close>

text \<open>The first row that the expression matches is rendered by the template.\<close>

lemma sub_jira_key_first_row:
  "has_jira_key_row s \<Longrightarrow>
     \<exists>pre lab mid rest. s = pre @ lab @ mid @ ''|'' @ rest
       \<and> match_jira_key_cell (lab @ mid @ ''|'' @ rest) = Some (lab, mid, rest)
       \<and> sub_jira_key ps s = pre @ expand ps (lab @ mid @ ''|'') lab ''|'' @ sub_jira_key ps rest"
proof (induction s)
  case Nil
  then show ?case by simp
next
  case (Cons c cs)
  show ?case
  proof (cases "match_jira_key_cell (c # cs)")
    case None
    with Cons.prems have "has_jira_key_row cs" by simp
    from Cons.IH [OF this] obtain pre lab mid rest where
      a: "cs = pre @ lab @ mid @ ''|'' @ rest"
         "match_jira_key_cell (lab @ mid @ ''|'' @ rest) = Some (lab, mid, rest)"
         "sub_jira_key ps cs
            = pre @ expand ps (lab @ mid @ ''|'') lab ''|'' @ sub_jira_key ps rest"
      by blast
    have "c # cs = (c # pre) @ lab @ mid @ ''|'' @ rest" using a(1) by simp
    moreover have "sub_jira_key ps (c # cs)
        = (c # pre) @ expand ps (lab @ mid @ ''|'') lab ''|'' @ sub_jira_key ps rest"
      using None a(3) by simp
    ultimately show ?thesis using a(2) by blast
  next
    case (Some m)
    obtain lab mid rest where m: "m = (lab, mid, rest)" by (cases m)
    have w: "c # cs = lab @ mid @ ''|'' @ rest"
      using match_jira_key_cell_whole [of "c # cs" lab mid rest] Some m by simp
    have "c # cs = [] @ lab @ mid @ ''|'' @ rest" using w by simp
    moreover have "match_jira_key_cell (lab @ mid @ ''|'' @ rest) = Some (lab, mid, rest)"
      using Some m w by simp
    moreover have "sub_jira_key ps (c # cs)
        = [] @ expand ps (lab @ mid @ ''|'') lab ''|'' @ sub_jira_key ps rest"
      using Some m by simp
    ultimately show ?thesis by blast
  qed
qed


definition no_row_files :: files where
  "no_row_files = [''e/README.md'' \<mapsto> ''# Platform\<newline>No table here.\<newline>'']"


section \<open>Resume mode\<close>

text \<open>A map of recorded keys keeps every key that is recorded and not empty.\<close>

definition keeps :: "(string \<rightharpoonup> string) \<Rightarrow> (string \<rightharpoonup> string) \<Rightarrow> bool" where
  "keeps m m' = (\<forall>i k. m i = Some k \<and> k \<noteq> [] \<longrightarrow> m' i = Some k)"

definition keeps_keys :: "world \<Rightarrow> world \<Rightarrow> bool" where
  "keeps_keys w w' =
     (keeps (epic_keys (state w)) (epic_keys (state w'))
      \<and> keeps (story_keys (state w)) (story_keys (state w'))
      \<and> keeps (task_keys (state w)) (task_keys (state w')))"

lemma keeps_refl: "keeps m m"
  by (simp add: keeps_def)

lemma keeps_trans: "keeps a b \<Longrightarrow> keeps b c \<Longrightarrow> keeps a c"
  by (simp add: keeps_def)

lemma keeps_keys_refl: "keeps_keys w w"
  by (simp add: keeps_keys_def keeps_refl)

lemma keeps_keys_trans: "keeps_keys a b \<Longrightarrow> keeps_keys b c \<Longrightarrow> keeps_keys a c"
  unfolding keeps_keys_def by (blast intro: keeps_trans)

lemma key_or_recorded: "m i = Some k \<Longrightarrow> k \<noteq> [] \<Longrightarrow> key_or (m i) d = k"
  by (simp add: key_or_def)

lemma keeps_upd_other: "key_or (m j) d = [] \<Longrightarrow> keeps m (m(j \<mapsto> v))"
  by (auto simp: keeps_def key_or_def split: option.splits if_splits)

lemma phase1_epic_keeps:
  assumes "phase1_epic remote dry_run True w e = (w', e')"
  shows "keeps_keys w w'"
proof (cases "key_or (epic_keys (state w) (epic_id e)) (epic_jira_key e) = []")
  case False
  with assms show ?thesis
    by (auto simp: phase1_epic_def count_skipped_def keeps_keys_def keeps_refl)
next
  case True
  have "keeps (epic_keys (state w)) ((epic_keys (state w))(epic_id e \<mapsto> v))" for v
    using True by (rule keeps_upd_other [of "epic_keys (state w)" "epic_id e" "epic_jira_key e"])
  with assms True show ?thesis
    by (auto simp: phase1_epic_def create_issue_def persist_key_def count_error_def
        keeps_keys_def keeps_refl Let_def split: if_splits sum.splits prod.splits)
qed

lemma phase2_story_keeps:
  assumes "phase2_story remote dry_run True ek w s = (w', s')"
  shows "keeps_keys w w'"
proof (cases "key_or (story_keys (state w) (story_id s)) (story_jira_key s) = []")
  case False
  with assms show ?thesis
    by (auto simp: phase2_story_def count_skipped_def keeps_keys_def keeps_refl)
next
  case True
  have "keeps (story_keys (state w)) ((story_keys (state w))(story_id s \<mapsto> v))" for v
    using True by (rule keeps_upd_other [of "story_keys (state w)" "story_id s" "story_jira_key s"])
  with assms True show ?thesis
    by (auto simp: phase2_story_def create_issue_def persist_key_def count_error_def
        keeps_keys_def keeps_refl Let_def split: if_splits sum.splits prod.splits)
qed

lemma phase3_task_keeps:
  assumes "phase3_task remote dry_run True sk w t = (w', t')"
  shows "keeps_keys w w'"
proof (cases "key_or (task_keys (state w) (task_id t)) (task_jira_key t) = []")
  case False
  with assms show ?thesis
    by (auto simp: phase3_task_def count_skipped_def keeps_keys_def keeps_refl)
next
  case True
  have "keeps (task_keys (state w)) ((task_keys (state w))(task_id t \<mapsto> v))" for v
    using True by (rule keeps_upd_other [of "task_keys (state w)" "task_id t" "task_jira_key t"])
  with assms True show ?thesis
    by (auto simp: phase3_task_def create_issue_def persist_key_def count_error_def
        keeps_keys_def keeps_refl Let_def split: if_splits sum.splits prod.splits)
qed

lemma for_each_keeps:
  assumes step: "\<And>w x w' x'. f w x = (w', x') \<Longrightarrow> keeps_keys w w'"
    and "for_each f w xs = (w', xs')"
  shows "keeps_keys w w'"
  using assms(2)
proof (induction xs arbitrary: w w' xs')
  case Nil
  then show ?case by (simp add: keeps_keys_refl)
next
  case (Cons x xs)
  obtain w1 x1 where s1: "f w x = (w1, x1)" by (cases "f w x")
  obtain w2 xs2 where s2: "for_each f w1 xs = (w2, xs2)" by (cases "for_each f w1 xs")
  from Cons.prems s1 s2 have r: "w' = w2" by simp
  from step [OF s1] Cons.IH [OF s2] show ?case unfolding r by (rule keeps_keys_trans)
qed

lemma phase2_epic_keeps:
  assumes "phase2_epic remote dry_run True w e = (w', e')"
  shows "keeps_keys w w'"
proof -
  let ?ek = "key_or (epic_keys (state w) (epic_id e)) (epic_jira_key e)"
  obtain w1 ss1 where f: "for_each (phase2_story remote dry_run True ?ek) w (epic_stories e) = (w1, ss1)"
    by (cases "for_each (phase2_story remote dry_run True ?ek) w (epic_stories e)")
  with assms have r: "w' = w1" by (simp add: phase2_epic_def)
  show ?thesis unfolding r by (rule for_each_keeps [OF _ f]) (rule phase2_story_keeps)
qed

lemma phase3_story_keeps:
  assumes "phase3_story remote dry_run True w s = (w', s')"
  shows "keeps_keys w w'"
proof (cases "key_or (story_keys (state w) (story_id s)) (story_jira_key s) = []")
  case True
  with assms show ?thesis by (simp add: phase3_story_def keeps_keys_refl)
next
  case False
  let ?sk = "key_or (story_keys (state w) (story_id s)) (story_jira_key s)"
  obtain w1 ts1 where f: "for_each (phase3_task remote dry_run True ?sk) w (story_tasks s) = (w1, ts1)"
    by (cases "for_each (phase3_task remote dry_run True ?sk) w (story_tasks s)")
  with assms False have r: "w' = w1" by (simp add: phase3_story_def)
  show ?thesis unfolding r by (rule for_each_keeps [OF _ f]) (rule phase3_task_keeps)
qed

lemma phase3_epic_keeps:
  assumes "phase3_epic remote dry_run True w e = (w', e')"
  shows "keeps_keys w w'"
proof -
  obtain w1 ss1 where f: "for_each (phase3_story remote dry_run True) w (epic_stories e) = (w1, ss1)"
    by (cases "for_each (phase3_story remote dry_run True) w (epic_stories e)")
  with assms have r: "w' = w1" by (simp add: phase3_epic_def)
  show ?thesis unfolding r by (rule for_each_keeps [OF _ f]) (rule phase3_story_keeps)
qed

lemma sync_to_jira_resume_keeps:
  "keeps_keys w (fst (sync_to_jira remote epics w dry_run True links_only))"
proof (cases links_only)
  case True
  then show ?thesis by (simp add: sync_to_jira_def keeps_keys_refl)
next
  case False
  obtain w1 es1 where p1: "for_each (phase1_epic remote dry_run True) w epics = (w1, es1)"
    by (cases "for_each (phase1_epic remote dry_run True) w epics")
  obtain w2 es2 where p2: "for_each (phase2_epic remote dry_run True) w1 es1 = (w2, es2)"
    by (cases "for_each (phase2_epic remote dry_run True) w1 es1")
  obtain w3 es3 where p3: "for_each (phase3_epic remote dry_run True) w2 es2 = (w3, es3)"
    by (cases "for_each (phase3_epic remote dry_run True) w2 es2")
  have r: "sync_to_jira remote epics w dry_run True links_only = (w3, es3)"
    using False p1 p2 p3 by (simp add: sync_to_jira_def)
  have "keeps_keys w w1" by (rule for_each_keeps [OF _ p1]) (rule phase1_epic_keeps)
  moreover have "keeps_keys w1 w2" by (rule for_each_keeps [OF _ p2]) (rule phase2_epic_keeps)
  moreover have "keeps_keys w2 w3" by (rule for_each_keeps [OF _ p3]) (rule phase3_epic_keeps)
  ultimately show ?thesis unfolding r by (auto intro: keeps_keys_trans)
qed

section \<open>Create or reuse in jira-bulk-sync.py\<close>

text \<open>
  \<open>JIRASync.sync_epic\<close> looks an epic, and then each of its stories, up in the remote
  store before it creates it. The requests of the method are the search by summary and
  issue type and the two creations. The remote service answers the n-th request with a
  status and, in the body, the keys of the issues found by a search (in order) or the
  \<open>key\<close> member of the issue created.
\<close>

record bulk_story =
  bs_id :: string
  bs_title :: string

datatype bulk_request =
  SearchIssue string string
| PostEpic string string
| PostStory string string string

record bulk_answer =
  answer_status :: nat
  issue_keys :: "string list"
  new_key :: "string option"

type_synonym bulk_remote = "nat \<Rightarrow> bulk_answer"

text \<open>
  The fields of the \<open>JIRASync\<close> object that the method updates: the requests sent, the
  lists \<open>created\<close>, \<open>skipped\<close> and \<open>errors\<close> (as local id and key, or local id), and the
  keys of \<open>state["items"]\<close>.
\<close>

record bulk =
  bulk_sent :: "bulk_request list"
  bulk_created :: "(string \<times> string) list"
  bulk_skipped :: "(string \<times> string) list"
  bulk_errors :: "string list"
  bulk_items :: "string \<rightharpoonup> string"

record counts =
  created_count :: nat
  skipped_count :: nat
  error_count :: nat

text \<open>\<open>_search_issue\<close>: the first issue of a 200 answer, else \<open>None\<close>.\<close>

definition search_issue ::
  "bulk_remote \<Rightarrow> bulk \<Rightarrow> string \<Rightarrow> string \<Rightarrow> string option \<times> bulk" where
  "search_issue remote b summary issue_type =
     (let a = remote (length (bulk_sent b));
          b' = b\<lparr>bulk_sent := bulk_sent b @ [SearchIssue summary issue_type]\<rparr>
      in (if answer_status a = 200
          then (case issue_keys a of [] \<Rightarrow> None | k # ks \<Rightarrow> Some k)
          else None, b'))"

text \<open>\<open>_create_epic\<close> and \<open>_create_story\<close>: the key of a 200 or 201 answer.\<close>

definition post_issue ::
  "bulk_remote \<Rightarrow> bulk \<Rightarrow> bulk_request \<Rightarrow> string \<Rightarrow> string option \<times> bulk" where
  "post_issue remote b req local_id =
     (let a = remote (length (bulk_sent b));
          b' = b\<lparr>bulk_sent := bulk_sent b @ [req]\<rparr>
      in if answer_status a = 200 \<or> answer_status a = 201 then (new_key a, b')
         else (None, b'\<lparr>bulk_errors := bulk_errors b' @ [local_id]\<rparr>))"

definition truthy :: "string option \<Rightarrow> bool" where
  "truthy k = (case k of None \<Rightarrow> False | Some s \<Rightarrow> s \<noteq> [])"

text \<open>The loop over the stories of the epic.\<close>

fun sync_stories ::
  "bulk_remote \<Rightarrow> string \<Rightarrow> bulk_story list \<Rightarrow> counts \<times> bulk \<Rightarrow> counts \<times> bulk" where
  "sync_stories remote epic_key [] cb = cb"
| "sync_stories remote epic_key (story # stories) (c, b) =
     (case search_issue remote b (bs_id story @ '':'') ''Story'' of
        (Some k, b1) \<Rightarrow>
          sync_stories remote epic_key stories
            (c\<lparr>skipped_count := skipped_count c + 1\<rparr>,
             b1\<lparr>bulk_skipped := bulk_skipped b1 @ [(bs_id story, k)]\<rparr>)
      | (None, b1) \<Rightarrow>
          (case post_issue remote b1 (PostStory (bs_id story) (bs_title story) epic_key)
                  (bs_id story) of
             (story_key, b2) \<Rightarrow>
               if truthy story_key then
                 sync_stories remote epic_key stories
                   (c\<lparr>created_count := created_count c + 1\<rparr>,
                    b2\<lparr>bulk_created := bulk_created b2 @ [(bs_id story, the story_key)],
                       bulk_items := (bulk_items b2)(bs_id story \<mapsto> the story_key)\<rparr>)
               else
                 sync_stories remote epic_key stories
                   (c\<lparr>error_count := error_count c + 1\<rparr>, b2)))"

definition sync_epic ::
  "bulk_remote \<Rightarrow> bulk \<Rightarrow> string \<Rightarrow> string \<Rightarrow> bulk_story list \<Rightarrow> counts \<times> bulk" where
  "sync_epic remote b eid epic_title stories =
     (case search_issue remote b (eid @ '':'') ''Epic'' of
        (Some k, b1) \<Rightarrow>
          sync_stories remote k stories
            (\<lparr>created_count = 0, skipped_count = 0, error_count = 0\<rparr>,
             b1\<lparr>bulk_skipped := bulk_skipped b1 @ [(eid, k)]\<rparr>)
      | (None, b1) \<Rightarrow>
          (case post_issue remote b1 (PostEpic eid epic_title) eid of
             (epic_key, b2) \<Rightarrow>
               if truthy epic_key then
                 sync_stories remote (the epic_key) stories
                   (\<lparr>created_count = 0, skipped_count = 0, error_count = 0\<rparr>,
                    b2\<lparr>bulk_created := bulk_created b2 @ [(eid, the epic_key)],
                       bulk_items := (bulk_items b2)(eid \<mapsto> the epic_key)\<rparr>)
               else (\<lparr>created_count = 0, skipped_count = 0, error_count = 1\<rparr>, b2)))"

text \<open>A request that creates no epic, and creates a story only under the epic key \<open>k\<close>.\<close>

definition under_epic :: "string \<Rightarrow> bulk_request \<Rightarrow> bool" where
  "under_epic k r =
     (case r of
        SearchIssue summary issue_type \<Rightarrow> True
      | PostEpic i title \<Rightarrow> False
      | PostStory sid title parent_epic \<Rightarrow> parent_epic = k)"

lemma sync_stories_sent:
  "\<exists>rest. bulk_sent (snd (sync_stories remote k stories (c, b))) = bulk_sent b @ rest
     \<and> list_all (under_epic k) rest
     \<and> set (bulk_skipped b) \<subseteq> set (bulk_skipped (snd (sync_stories remote k stories (c, b))))"
proof (induction stories arbitrary: c b)
  case Nil
  show ?case by simp
next
  case (Cons story stories)
  show ?case
  proof (cases "fst (search_issue remote b (bs_id story @ '':'') ''Story'')")
    case (Some found)
    let ?b1 = "b\<lparr>bulk_sent := bulk_sent b @ [SearchIssue (bs_id story @ '':'') ''Story'']\<rparr>"
    let ?c1 = "c\<lparr>skipped_count := skipped_count c + 1\<rparr>"
    let ?b2 = "?b1\<lparr>bulk_skipped := bulk_skipped ?b1 @ [(bs_id story, found)]\<rparr>"
    have step: "sync_stories remote k (story # stories) (c, b)
        = sync_stories remote k stories (?c1, ?b2)"
      using Some by (auto simp: search_issue_def Let_def split: if_splits list.splits)
    from Cons.IH [of ?c1 ?b2] obtain rest where
      r: "bulk_sent (snd (sync_stories remote k stories (?c1, ?b2))) = bulk_sent ?b2 @ rest"
         "list_all (under_epic k) rest"
         "set (bulk_skipped ?b2) \<subseteq> set (bulk_skipped (snd (sync_stories remote k stories (?c1, ?b2))))"
      by blast
    have "bulk_sent (snd (sync_stories remote k (story # stories) (c, b)))
        = bulk_sent b @ (SearchIssue (bs_id story @ '':'') ''Story'' # rest)"
      unfolding step using r(1) by simp
    moreover have "list_all (under_epic k) (SearchIssue (bs_id story @ '':'') ''Story'' # rest)"
      using r(2) by (simp add: under_epic_def)
    moreover have "set (bulk_skipped b)
        \<subseteq> set (bulk_skipped (snd (sync_stories remote k (story # stories) (c, b))))"
      unfolding step using r(3) by auto
    ultimately show ?thesis by blast
  next
    case None
    let ?b1 = "b\<lparr>bulk_sent := bulk_sent b @ [SearchIssue (bs_id story @ '':'') ''Story'']\<rparr>"
    have s1: "search_issue remote b (bs_id story @ '':'') ''Story'' = (None, ?b1)"
      using None by (auto simp: search_issue_def Let_def split: if_splits list.splits)
    obtain sk b2 where p: "post_issue remote ?b1 (PostStory (bs_id story) (bs_title story) k)
        (bs_id story) = (sk, b2)"
      by (cases "post_issue remote ?b1 (PostStory (bs_id story) (bs_title story) k) (bs_id story)")
    then have b2: "bulk_sent b2 = bulk_sent b
          @ [SearchIssue (bs_id story @ '':'') ''Story'', PostStory (bs_id story) (bs_title story) k]"
      "bulk_skipped b2 = bulk_skipped b"
      by (auto simp: post_issue_def Let_def split: if_splits)
    show ?thesis
    proof (cases "truthy sk")
      case True
      let ?c3 = "c\<lparr>created_count := created_count c + 1\<rparr>"
      let ?b3 = "b2\<lparr>bulk_created := bulk_created b2 @ [(bs_id story, the sk)],
                     bulk_items := (bulk_items b2)(bs_id story \<mapsto> the sk)\<rparr>"
      have step: "sync_stories remote k (story # stories) (c, b)
          = sync_stories remote k stories (?c3, ?b3)"
        using s1 p True by simp
      from Cons.IH [of ?c3 ?b3] obtain rest where
        r: "bulk_sent (snd (sync_stories remote k stories (?c3, ?b3))) = bulk_sent ?b3 @ rest"
           "list_all (under_epic k) rest"
           "set (bulk_skipped ?b3) \<subseteq> set (bulk_skipped (snd (sync_stories remote k stories (?c3, ?b3))))"
        by blast
      have "bulk_sent (snd (sync_stories remote k (story # stories) (c, b)))
          = bulk_sent b @ (SearchIssue (bs_id story @ '':'') ''Story''
                           # PostStory (bs_id story) (bs_title story) k # rest)"
        unfolding step using r(1) b2 by simp
      moreover have "list_all (under_epic k)
          (SearchIssue (bs_id story @ '':'') ''Story''
           # PostStory (bs_id story) (bs_title story) k # rest)"
        using r(2) by (simp add: under_epic_def)
      moreover have "set (bulk_skipped b)
          \<subseteq> set (bulk_skipped (snd (sync_stories remote k (story # stories) (c, b))))"
        unfolding step using r(3) b2 by auto
      ultimately show ?thesis by blast
    next
      case False
      let ?c3 = "c\<lparr>error_count := error_count c + 1\<rparr>"
      have step: "sync_stories remote k (story # stories) (c, b)
          = sync_stories remote k stories (?c3, b2)"
        using s1 p False by simp
      from Cons.IH [of ?c3 b2] obtain rest where
        r: "bulk_sent (snd (sync_stories remote k stories (?c3, b2))) = bulk_sent b2 @ rest"
           "list_all (under_epic k) rest"
           "set (bulk_skipped b2) \<subseteq> set (bulk_skipped (snd (sync_stories remote k stories (?c3, b2))))"
        by blast
      have "bulk_sent (snd (sync_stories remote k (story # stories) (c, b)))
          = bulk_sent b @ (SearchIssue (bs_id story @ '':'') ''Story''
                           # PostStory (bs_id story) (bs_title story) k # rest)"
        unfolding step using r(1) b2 by simp
      moreover have "list_all (under_epic k)
          (SearchIssue (bs_id story @ '':'') ''Story''
           # PostStory (bs_id story) (bs_title story) k # rest)"
        using r(2) by (simp add: under_epic_def)
      moreover have "set (bulk_skipped b)
          \<subseteq> set (bulk_skipped (snd (sync_stories remote k (story # stories) (c, b))))"
        unfolding step using r(3) b2 by auto
      ultimately show ?thesis by blast
    qed
  qed
qed

lemma sync_epic_reuses_found_key:
  assumes "answer_status (remote (length (bulk_sent b))) = 200"
    and "issue_keys (remote (length (bulk_sent b))) = k # ks"
  shows "\<exists>rest. bulk_sent (snd (sync_epic remote b eid title stories))
            = bulk_sent b @ SearchIssue (eid @ '':'') ''Epic'' # rest
          \<and> list_all (under_epic k) rest
          \<and> (eid, k) \<in> set (bulk_skipped (snd (sync_epic remote b eid title stories)))"
proof -
  let ?b1 = "b\<lparr>bulk_sent := bulk_sent b @ [SearchIssue (eid @ '':'') ''Epic'']\<rparr>"
  let ?b2 = "?b1\<lparr>bulk_skipped := bulk_skipped ?b1 @ [(eid, k)]\<rparr>"
  let ?c0 = "\<lparr>created_count = 0, skipped_count = 0, error_count = 0\<rparr>"
  have s: "search_issue remote b (eid @ '':'') ''Epic'' = (Some k, ?b1)"
    using assms by (simp add: search_issue_def Let_def)
  have e: "sync_epic remote b eid title stories = sync_stories remote k stories (?c0, ?b2)"
    by (simp add: sync_epic_def s)
  from sync_stories_sent [of remote k stories ?c0 ?b2] obtain rest where
    r: "bulk_sent (snd (sync_stories remote k stories (?c0, ?b2))) = bulk_sent ?b2 @ rest"
       "list_all (under_epic k) rest"
       "set (bulk_skipped ?b2) \<subseteq> set (bulk_skipped (snd (sync_stories remote k stories (?c0, ?b2))))"
    by blast
  have "bulk_sent (snd (sync_epic remote b eid title stories))
      = bulk_sent b @ SearchIssue (eid @ '':'') ''Epic'' # rest"
    unfolding e using r(1) by simp
  moreover have "(eid, k) \<in> set (bulk_skipped (snd (sync_epic remote b eid title stories)))"
    unfolding e using r(3) by auto
  ultimately show ?thesis using r(2) by blast
qed

section \<open>Properties of creation across runs\<close>

text \<open>
  Two runs of \<open>sync_to_jira\<close> without \<open>--resume\<close>, the second on the state, the files and
  the entities that the first has left: the epic is created twice, and the key recorded
  for it changes from the first issue to the second.
\<close>

definition first_run :: "world \<times> epic list" where
  "first_run = sync_to_jira all_created [demo_epic] (empty_world demo_files) False False False"

definition second_run :: "world \<times> epic list" where
  "second_run = sync_to_jira all_created (snd first_run) (fst first_run) False False False"



definition found_remote :: bulk_remote where
  "found_remote n =
     (if n = 0 then \<lparr>answer_status = 200, issue_keys = [''ARGUS-7''], new_key = None\<rparr>
      else if n = 1 then \<lparr>answer_status = 200, issue_keys = [], new_key = None\<rparr>
      else \<lparr>answer_status = 201, issue_keys = [], new_key = Some ''ARGUS-9''\<rparr>)"

definition empty_bulk :: bulk where
  "empty_bulk =
     \<lparr>bulk_sent = [], bulk_created = [], bulk_skipped = [], bulk_errors = [],
      bulk_items = Map.empty\<rparr>"


section \<open>convert-all-refs-to-jira-keys.py\<close>

text \<open>
  The directory tree under \<open>.bmad/epics\<close>, as the script walks it: the epic directories
  in the order of \<open>iterdir()\<close>, in each the story directories, and in a story directory the
  first file that matches \<open>story-*.md\<close> (if any) and the task files with their names.
\<close>

record story_dir =
  sd_name :: string
  sd_story_file :: "string option"
  sd_task_files :: "(string \<times> string) list"

record epic_dir =
  ed_name :: string
  ed_stories :: "story_dir list"

text \<open>
  \<open>^#\s+[A-Z]+-\d+-(\d+[a-z]?):\<close> at the start of a line: the group.
\<close>

definition match_story_num :: "string \<Rightarrow> string option" where
  "match_story_num s =
     (case s of
        [] \<Rightarrow> None
      | c # s1 \<Rightarrow>
          if c \<noteq> CHR ''#'' \<or> takeWhile is_space s1 = [] then None
          else
            (let t = dropWhile is_space s1 in
             if takeWhile is_upper t = [] then None
             else
               (case dropWhile is_upper t of
                  [] \<Rightarrow> None
                | h1 # t2 \<Rightarrow>
                    if h1 \<noteq> CHR ''-'' \<or> takeWhile is_digit t2 = [] then None
                    else
                      (case dropWhile is_digit t2 of
                         [] \<Rightarrow> None
                       | h2 # t4 \<Rightarrow>
                           if h2 \<noteq> CHR ''-'' \<or> takeWhile is_digit t4 = [] then None
                           else
                             (case dropWhile is_digit t4 of
                                [] \<Rightarrow> None
                              | x # t6 \<Rightarrow>
                                  if x = CHR '':'' then Some (takeWhile is_digit t4)
                                  else if is_lower_az x \<and> take 1 t6 = '':''
                                  then Some (takeWhile is_digit t4 @ [x])
                                  else None)))))"

text \<open>
  \<open>re.search\<close> with \<open>re.MULTILINE\<close>: \<open>^\<close> is the start of the text or the position
  behind a newline.
\<close>

fun search_story_num :: "bool \<Rightarrow> string \<Rightarrow> string option" where
  "search_story_num line_start [] = None"
| "search_story_num line_start (c # cs) =
     (case (if line_start then match_story_num (c # cs) else None) of
        Some g \<Rightarrow> Some g
      | None \<Rightarrow> search_story_num (c = CHR 0x0A) cs)"

text \<open>\<open>build_story_jira_map\<close>: one dictionary for the stories of all epics.\<close>

definition add_story :: "(string \<rightharpoonup> string) \<Rightarrow> story_dir \<Rightarrow> (string \<rightharpoonup> string)" where
  "add_story mapping sd =
     (case sd_story_file sd of
        None \<Rightarrow> mapping
      | Some content \<Rightarrow>
          (case search_story_num True content of
             None \<Rightarrow> mapping
           | Some story_num \<Rightarrow>
               (case search_jira_key_row content of
                  None \<Rightarrow> mapping
                | Some key \<Rightarrow> mapping(story_num \<mapsto> key, ''S'' @ story_num \<mapsto> key))))"

definition build_story_jira_map :: "epic_dir list \<Rightarrow> (string \<rightharpoonup> string)" where
  "build_story_jira_map epics =
     foldl (\<lambda>mapping ed. foldl add_story mapping (ed_stories ed)) Map.empty epics"

text \<open>\<open>convert_story_refs\<close>: the fields \<open>Depends On\<close> and \<open>Blocks\<close>, in this order.\<close>

definition convert_story_part :: "(string \<rightharpoonup> string) \<Rightarrow> string \<Rightarrow> string" where
  "convert_story_part story_map p =
     (case story_map p of
        Some k \<Rightarrow> k
      | None \<Rightarrow>
          if startswith p ''S'' then
            (case story_map (drop 1 p) of Some k \<Rightarrow> k | None \<Rightarrow> p)
          else p)"

definition story_replace_field :: "(string \<rightharpoonup> string) \<Rightarrow> string \<Rightarrow> string \<Rightarrow> string" where
  "story_replace_field story_map prefix refs =
     prefix @ join '', '' (map (\<lambda>p. convert_story_part story_map (strip p))
                           (split_on CHR '','' refs)) @ '' '' @ ''|''"

definition convert_story_refs :: "string \<Rightarrow> (string \<rightharpoonup> string) \<Rightarrow> string" where
  "convert_story_refs content story_map =
     (let repl = (\<lambda>prefix refs (u :: unit). (story_replace_field story_map prefix refs, u));
          content1 = fst (re_sub_field ''Depends On'' repl content ())
      in fst (re_sub_field ''Blocks'' repl content1 ()))"

text \<open>
  \<open>convert_task_refs\<close>: the fields \<open>Requires\<close> and \<open>Unlocks\<close>; a field that is \<open>none\<close>
  or \<open>-\<close> is returned as it was matched.
\<close>

definition task_replace_field ::
  "(string \<times> string \<rightharpoonup> string) \<Rightarrow> string \<Rightarrow> string \<Rightarrow> string \<Rightarrow> string" where
  "task_replace_field task_map story_dir_name prefix refs =
     (if lower (strip refs) = ''none'' \<or> strip refs = ''-'' then prefix @ refs @ ''|''
      else prefix @ join '', ''
             (map (\<lambda>p. case task_map (story_dir_name, strip p) of
                          Some k \<Rightarrow> k
                        | None \<Rightarrow> strip p)
                  (split_on CHR '','' refs)) @ '' '' @ ''|'')"

definition convert_task_refs ::
  "string \<Rightarrow> (string \<times> string \<rightharpoonup> string) \<Rightarrow> string \<Rightarrow> string" where
  "convert_task_refs content task_map story_dir_name =
     (let repl = (\<lambda>prefix refs (u :: unit).
                    (task_replace_field task_map story_dir_name prefix refs, u));
          content1 = fst (re_sub_field ''Requires'' repl content ())
      in fst (re_sub_field ''Unlocks'' repl content1 ()))"

text \<open>
  Two epics, each with a story 1 and a story 2 that depends on its own epic's story 1.
\<close>

definition auth_story_2 :: string where
  "auth_story_2 =
     ''# AUTH-001-2: Logout\<newline>| JIRA Key | ARGUS-11 |\<newline>| Depends On | S1 |\<newline>''"

definition plat_story_2 :: string where
  "plat_story_2 =
     ''# PLAT-002-2: Nodes\<newline>| JIRA Key | ARGUS-21 |\<newline>| Depends On | 1 |\<newline>''"

definition epic_auth :: epic_dir where
  "epic_auth =
     \<lparr>ed_name = ''EPIC-AUTH-001'',
      ed_stories =
        [\<lparr>sd_name = ''01-login'',
          sd_story_file = Some ''# AUTH-001-1: Login\<newline>| JIRA Key | ARGUS-10 |\<newline>| Depends On | - |\<newline>'',
          sd_task_files = []\<rparr>,
         \<lparr>sd_name = ''02-logout'', sd_story_file = Some auth_story_2, sd_task_files = []\<rparr>]\<rparr>"

definition epic_plat :: epic_dir where
  "epic_plat =
     \<lparr>ed_name = ''EPIC-PLAT-002'',
      ed_stories =
        [\<lparr>sd_name = ''01-cluster'',
          sd_story_file = Some ''# PLAT-002-1: Cluster\<newline>| JIRA Key | ARGUS-20 |\<newline>| Depends On | - |\<newline>'',
          sd_task_files = []\<rparr>,
         \<lparr>sd_name = ''02-nodes'', sd_story_file = Some plat_story_2, sd_task_files = []\<rparr>]\<rparr>"


text \<open>
  C1. The dictionary of \<open>build_story_jira_map\<close> is keyed by the story number alone, so
  the epic walked last owns the number: whichever epic comes first, the reference of its
  story 2 to its own story 1 is rewritten to the key of the other epic's story 1.
\<close>

theorem story_ref_resolved_to_other_epic:
  "convert_story_refs auth_story_2 (build_story_jira_map [epic_auth, epic_plat])
     = ''# AUTH-001-2: Logout\<newline>| JIRA Key | ARGUS-11 |\<newline>| Depends On | ARGUS-20 |\<newline>''
   \<and> convert_story_refs plat_story_2 (build_story_jira_map [epic_plat, epic_auth])
     = ''# PLAT-002-2: Nodes\<newline>| JIRA Key | ARGUS-21 |\<newline>| Depends On | ARGUS-10 |\<newline>''"
  by code_simp

text \<open>
  C8. \<open>convert_story_refs\<close> has no test for an empty field: it renders a field that holds
  only \<open>-\<close> again, with one space before the closing bar.
\<close>

theorem story_sentinel_field_rewritten:
  "convert_story_refs ''| Depends On | -|'' Map.empty = ''| Depends On | - |''
   \<and> convert_story_refs ''| Blocks |  none  |'' Map.empty = ''| Blocks |  none |''
   \<and> convert_task_refs ''| Requires | -|'' Map.empty ''01-login'' = ''| Requires | -|''"
  by code_simp

section \<open>Reference resolution in jira-post-import-fix.py\<close>

text \<open>
  \<open>ReferenceMapping\<close>: the five dictionaries from identifiers to remote keys.
\<close>

record ReferenceMapping =
  mapping_epics :: "string \<rightharpoonup> string"
  mapping_stories :: "string \<rightharpoonup> string"
  mapping_stories_by_epic :: "string \<times> string \<rightharpoonup> string"
  mapping_tasks :: "string \<rightharpoonup> string"
  mapping_task_tuples :: "string \<times> string \<rightharpoonup> string"

text \<open>
  The \<open>context\<close> dictionary: its entries \<open>epic_name\<close> and \<open>story_dir_name\<close>, each
  present or not. No context at all is the context without entries.
\<close>

record ref_context =
  ctx_epic_name :: "string option"
  ctx_story_dir_name :: "string option"

text \<open>\<open>str.isalnum\<close> and \<open>str.isdigit\<close> on the code points below 256.\<close>

definition alnum_char :: "char \<Rightarrow> bool" where
  "alnum_char c =
     (let n = (of_char c :: nat)
      in (48 \<le> n \<and> n \<le> 57) \<or> (65 \<le> n \<and> n \<le> 90) \<or> (97 \<le> n \<and> n \<le> 122)
         \<or> n = 170 \<or> n = 178 \<or> n = 179 \<or> n = 181 \<or> n = 185 \<or> n = 186
         \<or> (188 \<le> n \<and> n \<le> 190) \<or> (192 \<le> n \<and> n \<le> 214)
         \<or> (216 \<le> n \<and> n \<le> 246) \<or> 248 \<le> n)"

definition digit_char :: "char \<Rightarrow> bool" where
  "digit_char c =
     (let n = (of_char c :: nat)
      in (48 \<le> n \<and> n \<le> 57) \<or> n = 178 \<or> n = 179 \<or> n = 185)"

definition isalnum :: "string \<Rightarrow> bool" where
  "isalnum s = (s \<noteq> [] \<and> list_all alnum_char s)"

definition isdigit :: "string \<Rightarrow> bool" where
  "isdigit s = (s \<noteq> [] \<and> list_all digit_char s)"

definition sentinels :: "string list" where
  "sentinels = ['''', ''-'', ''none'', ''n/a'']"

text \<open>The first lookup that succeeds: a chain of \<open>if key in dict: return dict[key]\<close>.\<close>

definition orelse :: "'a option \<Rightarrow> 'a option \<Rightarrow> 'a option" where
  "orelse a b = (case a of Some x \<Rightarrow> Some x | None \<Rightarrow> b)"

text \<open>
  The per-epic story lookup of \<open>convert_reference\<close>, made when the context names an
  epic: the \<open>S\<close>-prefixed form, then the form that begins with a digit.
\<close>

definition lookup_story_by_epic :: "ReferenceMapping \<Rightarrow> string \<Rightarrow> string \<Rightarrow> string option" where
  "lookup_story_by_epic mapping epic ref =
     orelse
       (if startswith ref ''S'' \<and> isalnum (drop 1 ref)
        then orelse (mapping_stories_by_epic mapping (epic, ref))
                    (mapping_stories_by_epic mapping (epic, drop 1 ref))
        else None)
       (if isdigit ref \<or> (ref \<noteq> [] \<and> digit_char (hd ref))
        then orelse (mapping_stories_by_epic mapping (epic, ref))
                    (mapping_stories_by_epic mapping (epic, ''S'' @ ref))
        else None)"

text \<open>
  The lookups of \<open>convert_reference\<close> in their order: epics, epics without the prefix
  \<open>EPIC-\<close>, stories by full id, stories of the context's epic, tasks by full id, tasks of
  the context's story directory.
\<close>

definition lookup_reference :: "ReferenceMapping \<Rightarrow> ref_context \<Rightarrow> string \<Rightarrow> string option" where
  "lookup_reference mapping ctx ref =
     orelse (mapping_epics mapping ref)
    (orelse (if startswith ref ''EPIC-'' then mapping_epics mapping (drop 5 ref) else None)
    (orelse (mapping_stories mapping ref)
    (orelse (case ctx_epic_name ctx of
               None \<Rightarrow> None
             | Some epic \<Rightarrow> if epic = [] then None else lookup_story_by_epic mapping epic ref)
    (orelse (mapping_tasks mapping ref)
            (case ctx_story_dir_name ctx of
               None \<Rightarrow> None
             | Some story_dir \<Rightarrow> mapping_task_tuples mapping (story_dir, ref))))))"

definition convert_reference ::
  "string \<Rightarrow> ReferenceMapping \<Rightarrow> ref_context \<Rightarrow> string \<times> bool" where
  "convert_reference r mapping ctx =
     (let ref = strip r in
      if is_jira_key ref then (ref, False)
      else if lower ref \<in> set sentinels then (ref, False)
      else (case lookup_reference mapping ctx ref of
              Some k \<Rightarrow> (k, True)
            | None \<Rightarrow> (ref, False)))"

text \<open>
  \<open>replace_refs\<close>, the replacement function of \<open>fix_references_in_content\<close> for the
  field \<open>field_name\<close>. Its loop over the references builds three things, given here one by
  one: the list \<open>converted\<close>, the flag \<open>any_converted\<close>, and the entries that it appends to
  \<open>unresolved\<close>. The state is \<open>(num_fixed, unresolved)\<close>.
\<close>

definition field_refs :: "string \<Rightarrow> string list" where
  "field_refs refs_str = map strip (split_on CHR '','' (strip refs_str))"

definition is_reported :: "ReferenceMapping \<Rightarrow> ref_context \<Rightarrow> string \<Rightarrow> bool" where
  "is_reported mapping ctx ref =
     (case convert_reference ref mapping ctx of
        (new_ref, was_converted) \<Rightarrow>
          \<not> was_converted \<and> \<not> is_jira_key new_ref \<and> lower new_ref \<notin> set sentinels)"

definition replace_refs ::
  "string \<Rightarrow> ReferenceMapping \<Rightarrow> ref_context \<Rightarrow> string \<Rightarrow> string \<Rightarrow> nat \<times> string list
   \<Rightarrow> string \<times> nat \<times> string list" where
  "replace_refs field_name mapping ctx prefix refs_str st =
     (case st of (num_fixed, unresolved) \<Rightarrow>
        if lower (strip refs_str) \<in> set sentinels then (prefix @ refs_str @ ''|'', st)
        else
          (let refs = field_refs refs_str;
               converted = map (\<lambda>ref. fst (convert_reference ref mapping ctx)) refs;
               any_converted = list_ex (\<lambda>ref. snd (convert_reference ref mapping ctx)) refs
           in (prefix @ join '', '' converted @ '' '' @ ''|'',
               if any_converted then num_fixed + 1 else num_fixed,
               unresolved
               @ map (\<lambda>ref. field_name @ '': '' @ ref) (filter (is_reported mapping ctx) refs))))"

definition default_field_names :: "string list" where
  "default_field_names = [''Depends On'', ''Blocks'', ''Requires'', ''Unlocks'']"

fun fix_fields ::
  "ReferenceMapping \<Rightarrow> ref_context \<Rightarrow> string list \<Rightarrow> string \<times> nat \<times> string list
   \<Rightarrow> string \<times> nat \<times> string list" where
  "fix_fields mapping ctx [] cs = cs"
| "fix_fields mapping ctx (field_name # rest) (content, st) =
     fix_fields mapping ctx rest
       (re_sub_field field_name (replace_refs field_name mapping ctx) content st)"

definition fix_references_in_content ::
  "string \<Rightarrow> ReferenceMapping \<Rightarrow> ref_context \<Rightarrow> string list option \<Rightarrow> string \<times> nat \<times> string list" where
  "fix_references_in_content content mapping ctx field_names =
     fix_fields mapping ctx
       (case field_names of None \<Rightarrow> default_field_names | Some names \<Rightarrow> names)
       (content, 0, [])"

definition no_context :: ref_context where
  "no_context = \<lparr>ctx_epic_name = None, ctx_story_dir_name = None\<rparr>"

definition demo_mapping :: ReferenceMapping where
  "demo_mapping =
     \<lparr>mapping_epics = [''EPIC-X'' \<mapsto> ''K-1''],
      mapping_stories = Map.empty,
      mapping_stories_by_epic = [(''EPIC-X'', ''1'') \<mapsto> ''K-100'', (''EPIC-X'', ''S1'') \<mapsto> ''K-100''],
      mapping_tasks = Map.empty,
      mapping_task_tuples = [(''01-a'', ''T1'') \<mapsto> ''K-200'']\<rparr>"

lemma dropWhile_id_if: "xs = [] \<or> \<not> P (hd xs) \<Longrightarrow> dropWhile P xs = xs"
  by (cases xs) auto

lemma rstrip_prefix: "a = rev (dropWhile P (rev a)) @ rev (takeWhile P (rev a))"
proof -
  have "rev (dropWhile P (rev a)) @ rev (takeWhile P (rev a))
        = rev (takeWhile P (rev a) @ dropWhile P (rev a))"
    by (simp only: rev_append)
  also have "\<dots> = rev (rev a)" by (simp only: takeWhile_dropWhile_id)
  also have "\<dots> = a" by simp
  finally show ?thesis by (rule sym)
qed

lemma strip_head: "strip s = [] \<or> \<not> is_space (hd (strip s))"
proof (cases "strip s = []")
  case True then show ?thesis by simp
next
  case False
  define a where "a = dropWhile is_space s"
  have s: "strip s = rev (dropWhile is_space (rev a))" by (simp add: strip_def a_def)
  from rstrip_prefix [of a is_space] have "a = strip s @ rev (takeWhile is_space (rev a))"
    by (simp add: s)
  with False have "hd a = hd (strip s)" by (metis hd_append2)
  moreover have "a \<noteq> []" using False s by auto
  then have "\<not> is_space (hd a)" unfolding a_def by (rule hd_dropWhile)
  ultimately show ?thesis by simp
qed

lemma strip_last: "strip s = [] \<or> \<not> is_space (last (strip s))"
proof (cases "strip s = []")
  case True then show ?thesis by simp
next
  case False
  define a where "a = dropWhile is_space s"
  have s: "strip s = rev (dropWhile is_space (rev a))" by (simp add: strip_def a_def)
  from False s have ne: "dropWhile is_space (rev a) \<noteq> []" by auto
  then have "\<not> is_space (hd (dropWhile is_space (rev a)))" by (rule hd_dropWhile)
  moreover have "last (strip s) = hd (dropWhile is_space (rev a))"
    using ne by (simp add: s last_rev)
  ultimately show ?thesis by simp
qed

lemma strip_id: "(s = [] \<or> \<not> is_space (hd s)) \<Longrightarrow> (s = [] \<or> \<not> is_space (last s)) \<Longrightarrow> strip s = s"
proof -
  assume h: "s = [] \<or> \<not> is_space (hd s)" and l: "s = [] \<or> \<not> is_space (last s)"
  have 1: "dropWhile is_space s = s" using h by (rule dropWhile_id_if)
  have "rev s = [] \<or> \<not> is_space (hd (rev s))" using l by (auto simp: hd_rev)
  then have 2: "dropWhile is_space (rev s) = rev s" by (rule dropWhile_id_if)
  show ?thesis by (simp add: strip_def 1 2)
qed

lemma strip_strip [simp]: "strip (strip s) = strip s"
  using strip_head [of s] strip_last [of s] by (rule strip_id)

lemma length_field_refs_pos: "field_refs r \<noteq> []"
proof -
  have "split_on c s \<noteq> []" for c s by (induction s) (auto split: list.splits)
  then show ?thesis by (simp add: field_refs_def)
qed

lemma field_refs_stripped: "t \<in> set (field_refs r) \<Longrightarrow> strip t = t"
  by (auto simp: field_refs_def)

lemma convert_reference_unresolved:
  assumes "strip t = t" "\<not> is_jira_key t" "lower t \<notin> set sentinels"
    "lookup_reference m ctx t = None"
  shows "convert_reference t m ctx = (t, False)" and "is_reported m ctx t"
  using assms by (simp_all add: convert_reference_def is_reported_def)

text \<open>The rows that \<open>re.sub\<close> matches for a field, in order: group 1 and group 2.\<close>

function matched_rows :: "string \<Rightarrow> string \<Rightarrow> (string \<times> string) list" where
  "matched_rows F [] = []"
| "matched_rows F (c # cs) =
     (case match_field F (c # cs) of
        None \<Rightarrow> matched_rows F cs
      | Some (g1, g2, rest) \<Rightarrow> (g1, g2) # matched_rows F rest)"
  by pat_completeness auto
termination
  by (relation "measure (\<lambda>(F, s). length s)") (auto dest: match_field_shorter)

definition row_reports :: "string \<Rightarrow> ReferenceMapping \<Rightarrow> ref_context \<Rightarrow> string \<Rightarrow> string list" where
  "row_reports F m ctx refs_str =
     (if lower (strip refs_str) \<in> set sentinels then []
      else map (\<lambda>ref. F @ '': '' @ ref) (filter (is_reported m ctx) (field_refs refs_str)))"

lemma replace_refs_unresolved:
  "snd (snd (replace_refs F m ctx p r (n, u))) = u @ row_reports F m ctx r"
  by (simp add: replace_refs_def row_reports_def Let_def)

lemma re_sub_field_unresolved:
  "snd (snd (re_sub_field F (replace_refs F m ctx) s (n, u)))
   = u @ concat (map (\<lambda>(p, r). row_reports F m ctx r) (matched_rows F s))"
proof (induction F s arbitrary: n u rule: matched_rows.induct)
  case (1 F)
  show ?case by simp
next
  case (2 F c cs)
  show ?case
  proof (cases "match_field F (c # cs)")
    case None
    with "2.IH"(1) [of n u] show ?thesis by (auto split: prod.splits)
  next
    case (Some a)
    obtain g1 g2 rest where a: "a = (g1, g2, rest)" by (cases a)
    obtain row n1 u1 where rr: "replace_refs F m ctx g1 g2 (n, u) = (row, n1, u1)"
      by (cases "replace_refs F m ctx g1 g2 (n, u)")
    from replace_refs_unresolved [of F m ctx g1 g2 n u] rr
    have u1: "u1 = u @ row_reports F m ctx g2" by simp
    from "2.IH"(2) [OF Some [unfolded a] refl refl, of n1 u1] u1 Some a rr
    show ?thesis by (auto split: prod.splits)
  qed
qed

lemma fix_fields_unresolved_grows:
  "\<exists>ext. snd (snd (fix_fields m ctx Fs (c, n, u))) = u @ ext"
proof (induction Fs arbitrary: c n u)
  case Nil
  show ?case by simp
next
  case (Cons F Fs)
  obtain c1 n1 u1 where s: "re_sub_field F (replace_refs F m ctx) c (n, u) = (c1, n1, u1)"
    by (cases "re_sub_field F (replace_refs F m ctx) c (n, u)")
  from re_sub_field_unresolved [of F m ctx c n u] s obtain e1 where "u1 = u @ e1" by auto
  moreover from Cons.IH [of c1 n1 u1] obtain e2 where
    "snd (snd (fix_fields m ctx Fs (c1, n1, u1))) = u1 @ e2" by blast
  ultimately show ?case by (simp add: s)
qed

lemma fix_fields_append:
  "fix_fields m ctx (xs @ ys) cs = fix_fields m ctx ys (fix_fields m ctx xs cs)"
proof (induction xs arbitrary: cs)
  case Nil
  show ?case by simp
next
  case (Cons F xs)
  obtain c st where cs: "cs = (c, st)" by (cases cs)
  show ?case by (simp add: cs Cons.IH)
qed

section \<open>The document as cells\<close>

definition task_context :: ref_context where
  "task_context = \<lparr>ctx_epic_name = Some ''EPIC-X'', ctx_story_dir_name = Some ''01-a''\<rparr>"

section \<open>Splitting and joining\<close>

lemma split_on_not_Nil [simp]: "split_on c s \<noteq> []"
  by (induction s) (auto split: list.splits)

lemma split_on_Cons:
  "split_on c (x # xs) =
     (if x = c then [] # split_on c xs
      else (x # hd (split_on c xs)) # tl (split_on c xs))"
  by (cases "split_on c xs") auto

lemma join_Cons: "ys \<noteq> [] \<Longrightarrow> join sep (x # ys) = x @ sep @ join sep ys"
  by (cases ys) auto

lemma join_split_on: "join [c] (split_on c s) = s"
proof (induction s)
  case Nil
  show ?case by simp
next
  case (Cons x xs)
  obtain y ys where s: "split_on c xs = y # ys" by (cases "split_on c xs") auto
  show ?case
  proof (cases "x = c")
    case True
    then show ?thesis using Cons.IH by (simp add: join_Cons)
  next
    case False
    then show ?thesis using Cons.IH s by (cases ys) auto
  qed
qed

lemma split_on_free: "x \<in> set (split_on c s) \<Longrightarrow> c \<notin> set x"
proof (induction s arbitrary: x)
  case Nil
  then show ?case by simp
next
  case (Cons a s)
  obtain y ys where s: "split_on c s = y # ys" by (cases "split_on c s") auto
  from Cons.prems Cons.IH show ?case by (auto simp: s split: if_splits)
qed

lemma split_on_no_sep: "c \<notin> set a \<Longrightarrow> split_on c a = [a]"
  by (induction a) auto

lemma split_on_append_sep:
  "c \<notin> set a \<Longrightarrow> split_on c (a @ c # t) = a # split_on c t"
  by (induction a) auto

lemma split_on_join:
  "xs \<noteq> [] \<Longrightarrow> \<forall>x \<in> set xs. c \<notin> set x \<Longrightarrow> split_on c (join [c] xs) = xs"
proof (induction xs)
  case Nil
  then show ?case by simp
next
  case (Cons x xs)
  show ?case
  proof (cases xs)
    case Nil
    with Cons.prems show ?thesis by (simp add: split_on_no_sep)
  next
    case (Cons y ys)
    with Cons.prems Cons.IH show ?thesis by (simp add: split_on_append_sep)
  qed
qed

section \<open>Stripping\<close>

definition blank :: "string \<Rightarrow> bool" where
  "blank s = list_all is_space s"

lemma dropWhile_blank: "blank w \<Longrightarrow> dropWhile is_space (w @ s) = dropWhile is_space s"
  by (induction w) (auto simp: blank_def)

lemma takeWhile_blank: "blank w \<Longrightarrow> takeWhile is_space (w @ s) = w @ takeWhile is_space s"
  by (induction w) (auto simp: blank_def)

lemma dropWhile_blank_Nil: "blank w \<Longrightarrow> dropWhile is_space w = []"
  by (induction w) (auto simp: blank_def)

lemma blank_takeWhile [simp]: "blank (takeWhile is_space s)"
  by (induction s) (auto simp: blank_def)

lemma blank_rev [simp]: "blank (rev w) = blank w"
  by (simp add: blank_def list_all_iff)

lemma blank_append [simp]: "blank (a @ b) = (blank a \<and> blank b)"
  by (simp add: blank_def)

lemma blank_iff_dropWhile: "blank s \<longleftrightarrow> dropWhile is_space s = []"
  by (induction s) (auto simp: blank_def)

lemma strip_blank_append: "blank w \<Longrightarrow> strip (w @ s) = strip s"
  by (simp add: strip_def dropWhile_blank)

lemma strip_append_blank: "blank w \<Longrightarrow> strip (s @ w) = strip s"
proof -
  assume w: "blank w"
  show ?thesis
  proof (cases "blank s")
    case True
    have "blank (s @ w)" using True w by simp
    then have d1: "dropWhile is_space (s @ w) = []" by (rule dropWhile_blank_Nil)
    have d2: "dropWhile is_space s = []" using True by (rule dropWhile_blank_Nil)
    show ?thesis by (simp only: strip_def d1 d2)
  next
    case False
    then have ne: "dropWhile is_space s \<noteq> []" by (simp add: blank_iff_dropWhile)
    have 1: "dropWhile is_space (s @ w) = dropWhile is_space s @ w"
      using ne by (induction s) auto
    have "rev (dropWhile is_space s @ w) = rev w @ rev (dropWhile is_space s)" by simp
    moreover have "blank (rev w)" using w by simp
    ultimately have "dropWhile is_space (rev (dropWhile is_space s @ w))
        = dropWhile is_space (rev (dropWhile is_space s))"
      by (simp add: dropWhile_blank)
    then show ?thesis by (simp add: strip_def 1)
  qed
qed

lemma strip_blank: "blank w \<Longrightarrow> strip w = []"
  using strip_append_blank [of w "[]"] by (simp add: strip_def)

lemma strip_Nil_iff: "strip s = [] \<longleftrightarrow> blank s"
proof
  assume "blank s" then show "strip s = []" by (rule strip_blank)
next
  assume "strip s = []"
  then have "dropWhile is_space (rev (dropWhile is_space s)) = []" by (simp add: strip_def)
  then have "blank (rev (dropWhile is_space s))" by (simp add: blank_iff_dropWhile)
  then have "blank (dropWhile is_space s)" by simp
  moreover have "s = takeWhile is_space s @ dropWhile is_space s" by simp
  ultimately show "blank s" by (metis blank_append blank_takeWhile)
qed

text \<open>A text is its leading white space, its stripped form and its trailing white space.\<close>

lemma strip_decomp:
  "\<exists>w1 w2. s = w1 @ strip s @ w2 \<and> blank w1 \<and> blank w2 \<and> w1 = takeWhile is_space s
     \<and> (strip s \<noteq> [] \<longrightarrow> dropWhile is_space s = strip s @ w2)"
proof -
  define a where "a = dropWhile is_space s"
  have s: "strip s = rev (dropWhile is_space (rev a))" by (simp add: strip_def a_def)
  have a: "a = strip s @ rev (takeWhile is_space (rev a))"
    using rstrip_prefix [of a is_space] by (simp add: s)
  have "s = takeWhile is_space s @ a" by (simp add: a_def)
  then have "s = takeWhile is_space s @ strip s @ rev (takeWhile is_space (rev a))"
    using a by simp
  moreover have "blank (rev (takeWhile is_space (rev a)))" by simp
  ultimately show ?thesis using a a_def by (metis blank_takeWhile)
qed

lemma strip_eq_iff:
  assumes "F \<noteq> []" "\<not> is_space (hd F)" "\<not> is_space (last F)"
  shows "strip s = F \<longleftrightarrow> (\<exists>w1 w2. s = w1 @ F @ w2 \<and> blank w1 \<and> blank w2)"
proof
  assume "strip s = F"
  with strip_decomp [of s] show "\<exists>w1 w2. s = w1 @ F @ w2 \<and> blank w1 \<and> blank w2" by metis
next
  assume "\<exists>w1 w2. s = w1 @ F @ w2 \<and> blank w1 \<and> blank w2"
  then obtain w1 w2 where s: "s = w1 @ F @ w2" and b: "blank w1" "blank w2" by blast
  have "strip s = strip (F @ w2)" using b(1) by (simp add: s strip_blank_append)
  also have "\<dots> = strip F" using b(2) by (rule strip_append_blank)
  also have "\<dots> = F" using assms by (intro strip_id) simp_all
  finally show "strip s = F" .
qed

section \<open>Rows as cells\<close>

definition label_ok :: "string \<Rightarrow> bool" where
  "label_ok F = (F \<noteq> [] \<and> \<not> is_space (hd F) \<and> \<not> is_space (last F) \<and> CHR ''|'' \<notin> set F)"

definition value_space :: "string \<Rightarrow> string" where
  "value_space c = (if blank c then butlast c else takeWhile is_space c)"

definition value_text :: "string \<Rightarrow> string" where
  "value_text c = (if blank c then [last c] else dropWhile is_space c)"

lemma first_sep_unique:
  "c \<notin> set a \<Longrightarrow> c \<notin> set a' \<Longrightarrow> a @ c # t = a' @ c # t' \<Longrightarrow> a = a' \<and> t = t'"
proof (induction a arbitrary: a')
  case Nil
  then show ?case by (cases a') auto
next
  case (Cons x a)
  then show ?case by (cases a') auto
qed

lemma blank_no_bar: "blank w \<Longrightarrow> CHR ''|'' \<notin> set w"
  by (auto simp: blank_def list_all_iff)

lemma dropWhile_head:
  "F \<noteq> [] \<Longrightarrow> \<not> is_space (hd F) \<Longrightarrow> dropWhile is_space (F @ t) = F @ t"
  by (cases F) auto

lemma takeWhile_head:
  "F \<noteq> [] \<Longrightarrow> \<not> is_space (hd F) \<Longrightarrow> takeWhile is_space (F @ t) = []"
  by (cases F) auto

lemma match_label_cell:
  assumes b: "CHR ''|'' \<notin> set b" and F: "label_ok F"
  shows "match_label F (CHR ''|'' # b @ CHR ''|'' # X)
           = (if strip b = F then Some (CHR ''|'' # b @ [CHR ''|''], X) else None)"
proof (cases "strip b = F")
  case True
  from F have F1: "F \<noteq> []" "\<not> is_space (hd F)" "\<not> is_space (last F)"
    by (simp_all add: label_ok_def)
  from True have "\<exists>w1 w2. b = w1 @ F @ w2 \<and> blank w1 \<and> blank w2"
    by (simp only: strip_eq_iff [OF F1])
  then obtain w1 w2 where bb: "b = w1 @ F @ w2" and w: "blank w1" "blank w2" by blast
  define s1 where "s1 = b @ CHR ''|'' # X"
  define t3 where "t3 = w2 @ CHR ''|'' # X"
  have s1: "s1 = w1 @ (F @ t3)" by (simp add: s1_def t3_def bb)
  have d1: "dropWhile is_space s1 = F @ t3"
    by (simp only: s1 dropWhile_blank [OF w(1)] dropWhile_head [OF F1(1) F1(2)])
  have k1: "takeWhile is_space s1 = w1"
    by (simp only: s1 takeWhile_blank [OF w(1)] takeWhile_head [OF F1(1) F1(2)] append_Nil2)
  have d3: "dropWhile is_space t3 = CHR ''|'' # X"
    by (simp add: t3_def dropWhile_blank [OF w(2)])
  have k3: "takeWhile is_space t3 = w2"
    by (simp add: t3_def takeWhile_blank [OF w(2)])
  have "\<exists>s1' t3'. CHR ''|'' # s1 = CHR ''|'' # s1' \<and> dropWhile is_space s1' = F @ t3'
        \<and> dropWhile is_space t3' = CHR ''|'' # X
        \<and> CHR ''|'' # w1 @ F @ w2 @ [CHR ''|'']
            = CHR ''|'' # takeWhile is_space s1' @ F @ takeWhile is_space t3' @ [CHR ''|'']"
    apply (rule exI [of _ s1])
    apply (rule exI [of _ t3])
    apply (simp only: d1 d3 k1 k3)
    done
  then have "match_label F (CHR ''|'' # s1) = Some (CHR ''|'' # w1 @ F @ w2 @ [CHR ''|''], X)"
    by (simp only: match_label_Some)
  then show ?thesis using True by (simp add: s1_def bb)
next
  case False
  have "match_label F (CHR ''|'' # b @ CHR ''|'' # X) = None"
  proof (rule ccontr)
    assume "match_label F (CHR ''|'' # b @ CHR ''|'' # X) \<noteq> None"
    then obtain lab r where m: "match_label F (CHR ''|'' # b @ CHR ''|'' # X) = Some (lab, r)"
      by auto
    from m [unfolded match_label_Some]
    obtain s1 t3 where s: "CHR ''|'' # b @ CHR ''|'' # X = CHR ''|'' # s1"
      and d1: "dropWhile is_space s1 = F @ t3"
      and d3: "dropWhile is_space t3 = CHR ''|'' # r"
      by blast
    define w1 where "w1 = takeWhile is_space s1"
    define w2 where "w2 = takeWhile is_space t3"
    have e1: "s1 = w1 @ F @ t3" unfolding w1_def using d1 by (rule dropWhile_eq_split)
    have e2: "t3 = w2 @ CHR ''|'' # r" unfolding w2_def using d3 by (rule dropWhile_eq_split)
    have w: "blank w1" "blank w2" by (simp_all add: w1_def w2_def)
    have "s1 = b @ CHR ''|'' # X" using s by simp
    then have eq: "b @ CHR ''|'' # X = (w1 @ F @ w2) @ CHR ''|'' # r"
      by (simp add: e1 [symmetric] e2 [symmetric])
    have nb: "CHR ''|'' \<notin> set (w1 @ F @ w2)"
      using blank_no_bar [OF w(1)] blank_no_bar [OF w(2)] F by (simp add: label_ok_def)
    have bb: "b = w1 @ F @ w2" using first_sep_unique [OF b nb eq] by simp
    from F have F1: "F \<noteq> []" "\<not> is_space (hd F)" "\<not> is_space (last F)"
      by (simp_all add: label_ok_def)
    have "\<exists>w1 w2. b = w1 @ F @ w2 \<and> blank w1 \<and> blank w2" using bb w by blast
    then have "strip b = F" by (simp only: strip_eq_iff [OF F1])
    with False show False ..
  qed
  with False show ?thesis by simp
qed

lemma match_label_no_bar:
  assumes b: "CHR ''|'' \<notin> set b"
  shows "match_label F (CHR ''|'' # b) = None"
proof (rule ccontr)
  assume "match_label F (CHR ''|'' # b) \<noteq> None"
  then obtain lab r where m: "match_label F (CHR ''|'' # b) = Some (lab, r)" by auto
  from match_label_whole [OF m] match_label_Some [THEN iffD1, OF m]
  have "CHR ''|'' # b = lab @ r" "\<exists>l. lab = CHR ''|'' # l @ [CHR ''|'']" by auto
  then have "CHR ''|'' \<in> set b" by auto
  with b show False ..
qed

lemma match_label_not_bar: "x \<noteq> CHR ''|'' \<Longrightarrow> match_label F (x # t) = None"
  by (simp add: match_label_def)

lemma not_pipe_all: "CHR ''|'' \<notin> set c \<Longrightarrow> takeWhile not_pipe (c @ CHR ''|'' # T) = c"
  "CHR ''|'' \<notin> set c \<Longrightarrow> dropWhile not_pipe (c @ CHR ''|'' # T) = CHR ''|'' # T"
  "CHR ''|'' \<notin> set c \<Longrightarrow> dropWhile not_pipe c = []"
  by (induction c) (auto simp: not_pipe_def)

lemma dropWhile_not_blank:
  "\<not> blank c \<Longrightarrow> dropWhile is_space (c @ t) = dropWhile is_space c @ t"
  by (induction c) (auto simp: blank_def)

lemma takeWhile_not_blank:
  "\<not> blank c \<Longrightarrow> takeWhile is_space (c @ t) = takeWhile is_space c"
  by (induction c) (auto simp: blank_def)

lemma match_value_cell:
  assumes c: "CHR ''|'' \<notin> set c"
  shows "match_value (c @ CHR ''|'' # T)
           = (if c = [] then None else Some (value_space c, value_text c, T))"
proof (cases "blank c")
  case True
  have d: "dropWhile is_space (c @ CHR ''|'' # T) = CHR ''|'' # T"
    using True by (simp add: dropWhile_blank)
  have t: "takeWhile is_space (c @ CHR ''|'' # T) = c"
    using True by (simp add: takeWhile_blank)
  show ?thesis
    using True by (simp add: match_value_def d t value_space_def value_text_def not_pipe_def)
next
  case False
  then have ne: "c \<noteq> []" by (auto simp: blank_def)
  have dn: "dropWhile is_space c \<noteq> []" using False by (simp add: blank_iff_dropWhile)
  have db: "CHR ''|'' \<notin> set (dropWhile is_space c)" using c by (auto dest: set_dropWhileD)
  have d: "dropWhile is_space (c @ CHR ''|'' # T) = dropWhile is_space c @ CHR ''|'' # T"
    using False by (rule dropWhile_not_blank)
  have t: "takeWhile is_space (c @ CHR ''|'' # T) = takeWhile is_space c"
    using False by (rule takeWhile_not_blank)
  show ?thesis
    using False ne dn
    by (simp add: match_value_def d t value_space_def value_text_def not_pipe_all [OF db])
qed

lemma match_value_no_bar:
  assumes c: "CHR ''|'' \<notin> set c"
  shows "match_value c = None"
proof -
  have "CHR ''|'' \<notin> set (dropWhile is_space c)" using c by (auto dest: set_dropWhileD)
  then have h: "dropWhile not_pipe (dropWhile is_space c) = []" by (rule not_pipe_all)
  show ?thesis unfolding match_value_def by (simp only: h list.case)
qed

lemma match_value_bar: "match_value (CHR ''|'' # T) = None"
  by (simp add: match_value_def not_pipe_def)

lemma match_field_cells:
  assumes "CHR ''|'' \<notin> set b" "CHR ''|'' \<notin> set c" "label_ok F"
  shows "match_field F (CHR ''|'' # b @ CHR ''|'' # c @ CHR ''|'' # T)
           = (if strip b = F \<and> c \<noteq> []
              then Some (CHR ''|'' # b @ CHR ''|'' # value_space c, value_text c, T)
              else None)"
proof (cases "c = []")
  case True
  then show ?thesis
    using assms by (simp add: match_field_def match_label_cell match_value_bar)
next
  case False
  then show ?thesis
    using assms by (simp add: match_field_def match_label_cell match_value_cell)
qed

lemma match_field_two_cells:
  assumes "CHR ''|'' \<notin> set b" "CHR ''|'' \<notin> set c" "label_ok F"
  shows "match_field F (CHR ''|'' # b @ CHR ''|'' # c) = None"
  using assms by (simp add: match_field_def match_label_cell match_value_no_bar)

lemma match_field_one_cell:
  assumes "CHR ''|'' \<notin> set b"
  shows "match_field F (CHR ''|'' # b) = None"
  using assms by (simp add: match_field_def match_label_no_bar)

lemma match_field_not_bar: "x \<noteq> CHR ''|'' \<Longrightarrow> match_field F (x # t) = None"
  by (simp add: match_field_def match_label_not_bar)

lemma value_cell_parts: "c \<noteq> [] \<Longrightarrow> value_space c @ value_text c = c"
  by (simp add: value_space_def value_text_def)

section \<open>One pass over the cells\<close>

fun sub_cells :: "string \<Rightarrow> (string \<Rightarrow> string) \<Rightarrow> string list \<Rightarrow> string list" where
  "sub_cells F f (a # b # c # d # rest) =
     (if strip b = F \<and> c \<noteq> [] then a # b # f c # sub_cells F f (d # rest)
      else a # sub_cells F f (b # c # d # rest))"
| "sub_cells F f cells = cells"

lemma sub_cells_not_Nil [simp]: "sub_cells F f cells = [] \<longleftrightarrow> cells = []"
  by (induction F f cells rule: sub_cells.induct) auto

lemma length_sub_cells [simp]: "length (sub_cells F f cells) = length cells"
  by (induction F f cells rule: sub_cells.induct) auto

lemma re_sub_field_skip:
  "CHR ''|'' \<notin> set a \<Longrightarrow>
     fst (re_sub_field F repl (a @ t) st) = a @ fst (re_sub_field F repl t st)"
  by (induction a) (auto simp: match_field_not_bar split: prod.splits)

lemma re_sub_field_skip_all:
  "CHR ''|'' \<notin> set a \<Longrightarrow> fst (re_sub_field F repl a st) = a"
  using re_sub_field_skip [of a F repl "[]" st] by simp

lemma re_sub_field_no_match:
  "match_field F (x # t) = None \<Longrightarrow>
     fst (re_sub_field F repl (x # t) st) = x # fst (re_sub_field F repl t st)"
  by (simp split: prod.splits)

lemma re_sub_field_match:
  "match_field F (x # t) = Some (g1, g2, rest) \<Longrightarrow>
     fst (re_sub_field F repl (x # t) st)
       = fst (repl g1 g2 st) @ fst (re_sub_field F repl rest (snd (repl g1 g2 st)))"
  by (simp split: prod.splits)

definition rewrite_value :: "ReferenceMapping \<Rightarrow> ref_context \<Rightarrow> string \<Rightarrow> string" where
  "rewrite_value mapping ctx v =
     (if lower (strip v) \<in> set sentinels then v
      else join '', '' (map (\<lambda>ref. fst (convert_reference ref mapping ctx)) (field_refs v))
           @ '' '')"

definition rewrite_cell :: "ReferenceMapping \<Rightarrow> ref_context \<Rightarrow> string \<Rightarrow> string" where
  "rewrite_cell mapping ctx c = value_space c @ rewrite_value mapping ctx (value_text c)"

lemma fst_replace_refs:
  "fst (replace_refs F mapping ctx g1 g2 st) = g1 @ rewrite_value mapping ctx g2 @ ''|''"
  by (cases st) (simp add: replace_refs_def rewrite_value_def Let_def)

lemma re_sub_field_short1:
  "CHR ''|'' \<notin> set a \<Longrightarrow> fst (re_sub_field F repl a st) = a"
  by (rule re_sub_field_skip_all)

lemma re_sub_field_short2:
  assumes "CHR ''|'' \<notin> set a" "CHR ''|'' \<notin> set b"
  shows "fst (re_sub_field F repl (a @ CHR ''|'' # b) st) = a @ CHR ''|'' # b"
proof -
  have m: "match_field F (CHR ''|'' # b) = None" using assms by (simp add: match_field_one_cell)
  have "fst (re_sub_field F repl (a @ CHR ''|'' # b) st)
      = a @ CHR ''|'' # fst (re_sub_field F repl b st)"
    unfolding re_sub_field_skip [OF assms(1)] re_sub_field_no_match [OF m] ..
  then show ?thesis using assms by (simp add: re_sub_field_skip_all)
qed

lemma re_sub_field_short3:
  assumes "label_ok F" "CHR ''|'' \<notin> set a" "CHR ''|'' \<notin> set b" "CHR ''|'' \<notin> set c"
  shows "fst (re_sub_field F repl (a @ CHR ''|'' # b @ CHR ''|'' # c) st)
           = a @ CHR ''|'' # b @ CHR ''|'' # c"
proof -
  have m: "match_field F (CHR ''|'' # b @ CHR ''|'' # c) = None"
    using assms by (simp add: match_field_two_cells)
  have "fst (re_sub_field F repl (a @ CHR ''|'' # b @ CHR ''|'' # c) st)
      = a @ CHR ''|'' # fst (re_sub_field F repl (b @ CHR ''|'' # c) st)"
    unfolding re_sub_field_skip [OF assms(2)] re_sub_field_no_match [OF m] ..
  then show ?thesis using assms by (simp add: re_sub_field_short2)
qed

lemma re_sub_field_cells_gen:
  assumes "label_ok F"
    and "\<forall>g1 g2 st. fst (repl g1 g2 st) = g1 @ h g2 @ ''|''"
    and "\<forall>c. f c = value_space c @ h (value_text c)"
    and "cells \<noteq> []"
    and "\<forall>x \<in> set cells. CHR ''|'' \<notin> set x"
  shows "fst (re_sub_field F repl (join ''|'' cells) st) = join ''|'' (sub_cells F f cells)"
  using assms
proof (induction F f cells arbitrary: st rule: sub_cells.induct)
  case (1 F f a b c d rest)
  let ?T = "join ''|'' (d # rest)"
  note F = "1.prems"(1) and repl = "1.prems"(2) and f = "1.prems"(3)
  from "1.prems"(5) have fr: "CHR ''|'' \<notin> set a" "CHR ''|'' \<notin> set b" "CHR ''|'' \<notin> set c"
    and rest: "\<forall>x \<in> set (d # rest). CHR ''|'' \<notin> set x"
    and rest2: "\<forall>x \<in> set (b # c # d # rest). CHR ''|'' \<notin> set x" by simp_all
  have whole: "join ''|'' (a # b # c # d # rest)
               = a @ CHR ''|'' # b @ CHR ''|'' # c @ CHR ''|'' # ?T" by simp
  have skip: "fst (re_sub_field F repl (join ''|'' (a # b # c # d # rest)) st)
      = a @ fst (re_sub_field F repl (CHR ''|'' # b @ CHR ''|'' # c @ CHR ''|'' # ?T) st)"
    unfolding whole using fr(1) by (rule re_sub_field_skip)
  show ?case
  proof (cases "strip b = F \<and> c \<noteq> []")
    case True
    have m: "match_field F (CHR ''|'' # b @ CHR ''|'' # c @ CHR ''|'' # ?T)
               = Some (CHR ''|'' # b @ CHR ''|'' # value_space c, value_text c, ?T)"
      unfolding match_field_cells [OF fr(2) fr(3) F] using True by simp
    have ih: "fst (re_sub_field F repl ?T st') = join ''|'' (sub_cells F f (d # rest))" for st'
      using "1.IH"(1) [OF True F repl f _ rest] by simp
    have "fst (re_sub_field F repl (CHR ''|'' # b @ CHR ''|'' # c @ CHR ''|'' # ?T) st)
        = (CHR ''|'' # b @ CHR ''|'' # value_space c) @ h (value_text c)
            @ ''|'' @ join ''|'' (sub_cells F f (d # rest))"
      unfolding re_sub_field_match [OF m] ih using repl by simp
    also have "\<dots> = CHR ''|'' # b @ CHR ''|'' # f c @ CHR ''|'' # join ''|'' (sub_cells F f (d # rest))"
      using f by simp
    finally have "fst (re_sub_field F repl (join ''|'' (a # b # c # d # rest)) st)
        = a @ CHR ''|'' # b @ CHR ''|'' # f c @ CHR ''|'' # join ''|'' (sub_cells F f (d # rest))"
      unfolding skip by simp
    moreover have "sub_cells F f (a # b # c # d # rest) = a # b # f c # sub_cells F f (d # rest)"
      using True by (simp only: sub_cells.simps(1) if_True simp_thms)
    then have "join ''|'' (sub_cells F f (a # b # c # d # rest))
        = a @ CHR ''|'' # b @ CHR ''|'' # f c @ CHR ''|'' # join ''|'' (sub_cells F f (d # rest))"
      using join_Cons [of "sub_cells F f (d # rest)" "''|''" "f c"] by simp
    ultimately show ?thesis by simp
  next
    case False
    have m: "match_field F (CHR ''|'' # b @ CHR ''|'' # c @ CHR ''|'' # ?T) = None"
      unfolding match_field_cells [OF fr(2) fr(3) F] using False by simp
    have t2: "b @ CHR ''|'' # c @ CHR ''|'' # ?T = join ''|'' (b # c # d # rest)" by simp
    have ih: "fst (re_sub_field F repl (join ''|'' (b # c # d # rest)) st)
                = join ''|'' (sub_cells F f (b # c # d # rest))"
      using "1.IH"(2) [OF False F repl f _ rest2] by simp
    have "fst (re_sub_field F repl (CHR ''|'' # b @ CHR ''|'' # c @ CHR ''|'' # ?T) st)
        = CHR ''|'' # fst (re_sub_field F repl (b @ CHR ''|'' # c @ CHR ''|'' # ?T) st)"
      using m by (rule re_sub_field_no_match)
    also have "\<dots> = CHR ''|'' # join ''|'' (sub_cells F f (b # c # d # rest))"
      unfolding t2 ih ..
    finally have "fst (re_sub_field F repl (join ''|'' (a # b # c # d # rest)) st)
        = a @ CHR ''|'' # join ''|'' (sub_cells F f (b # c # d # rest))"
      unfolding skip by simp
    moreover have "sub_cells F f (a # b # c # d # rest) = a # sub_cells F f (b # c # d # rest)"
      using False by (simp only: sub_cells.simps(1) if_False simp_thms)
    then have "join ''|'' (sub_cells F f (a # b # c # d # rest))
        = a @ CHR ''|'' # join ''|'' (sub_cells F f (b # c # d # rest))"
      using join_Cons [of "sub_cells F f (b # c # d # rest)" "''|''" a] by simp
    ultimately show ?thesis by simp
  qed
qed (simp_all add: re_sub_field_short1 re_sub_field_short2 re_sub_field_short3)

lemma re_sub_field_cells:
  assumes "label_ok F" "cells \<noteq> []" "\<forall>x \<in> set cells. CHR ''|'' \<notin> set x"
  shows "fst (re_sub_field F (replace_refs F mapping ctx) (join ''|'' cells) st)
       = join ''|'' (sub_cells F (rewrite_cell mapping ctx) cells)"
  using assms
  by (intro re_sub_field_cells_gen [where h = "rewrite_value mapping ctx"])
     (simp_all add: fst_replace_refs rewrite_cell_def)

section \<open>Tables of remote keys\<close>

definition valid_value :: "string \<Rightarrow> bool" where
  "valid_value v = (v = [] \<or> (strip v = v \<and> is_jira_key v))"

definition values_ok :: "ReferenceMapping \<Rightarrow> bool" where
  "values_ok mapping =
     ((\<forall>k v. mapping_epics mapping k = Some v \<longrightarrow> valid_value v)
      \<and> (\<forall>k v. mapping_stories mapping k = Some v \<longrightarrow> valid_value v)
      \<and> (\<forall>k v. mapping_stories_by_epic mapping k = Some v \<longrightarrow> valid_value v)
      \<and> (\<forall>k v. mapping_tasks mapping k = Some v \<longrightarrow> valid_value v)
      \<and> (\<forall>k v. mapping_task_tuples mapping k = Some v \<longrightarrow> valid_value v))"

definition key_char :: "char \<Rightarrow> bool" where
  "key_char c = (is_upper c \<or> c = CHR ''-'' \<or> is_digit c)"

lemma jira_key_chars:
  assumes "is_jira_key v" "strip v = v"
  shows "list_all key_char v" and "v \<noteq> []"
proof -
  define u where "u = takeWhile is_upper v"
  from assms obtain d where d: "dropWhile is_upper v = CHR ''-'' # d" "list_all is_digit d"
    and u: "u \<noteq> []"
    by (auto simp: is_jira_key_def Let_def u_def split: list.splits
        simp del: dropWhile_eq_Nil_conv)
  have v: "v = u @ CHR ''-'' # d" unfolding u_def using d(1) by (rule dropWhile_eq_split)
  have "list_all is_upper u" unfolding u_def list_all_iff by (auto dest: set_takeWhileD)
  then show "list_all key_char v" using d(2) by (auto simp: v key_char_def list_all_iff)
  show "v \<noteq> []" using v by simp
qed

lemma key_char_plain:
  "key_char c \<Longrightarrow> c \<noteq> CHR ''|'' \<and> c \<noteq> CHR '','' \<and> \<not> is_space c \<and> \<not> is_lower_az c"
  by (auto simp: key_char_def is_upper_def is_digit_def is_space_def is_lower_az_def Let_def)

lemma valid_value_plain:
  assumes "valid_value v"
  shows "CHR ''|'' \<notin> set v" and "CHR '','' \<notin> set v" and "strip v = v"
proof -
  have a: "c \<in> set v \<Longrightarrow> key_char c" for c
    using assms jira_key_chars(1) [of v] by (auto simp: valid_value_def list_all_iff)
  show "CHR ''|'' \<notin> set v" using a key_char_plain by blast
  show "CHR '','' \<notin> set v" using a key_char_plain by blast
  show "strip v = v" using assms by (auto simp: valid_value_def strip_def)
qed

lemma lookup_reference_valid:
  assumes "values_ok mapping" "lookup_reference mapping ctx ref = Some x"
  shows "valid_value x"
  using assms
  unfolding values_ok_def lookup_reference_def lookup_story_by_epic_def orelse_def
  by (auto split: option.splits if_splits)

definition conv :: "ReferenceMapping \<Rightarrow> ref_context \<Rightarrow> string \<Rightarrow> string" where
  "conv mapping ctx r = fst (convert_reference r mapping ctx)"

lemma conv_cases:
  assumes "values_ok mapping"
  shows "conv mapping ctx r = strip r \<or> valid_value (conv mapping ctx r)"
  using lookup_reference_valid [OF assms]
  by (auto simp: conv_def convert_reference_def Let_def split: option.splits)

lemma convert_reference_strip:
  "convert_reference (strip r) mapping ctx = convert_reference r mapping ctx"
  by (simp add: convert_reference_def)

lemma convert_jira_key: "is_jira_key t \<Longrightarrow> convert_reference t mapping ctx = (strip t, False)"
proof -
  assume "is_jira_key t"
  then have "is_jira_key (strip t)" by (simp add: is_jira_key_def)
  then show ?thesis by (simp add: convert_reference_def)
qed

lemma conv_valid: "valid_value x \<Longrightarrow> conv mapping ctx x = x"
proof -
  assume v: "valid_value x"
  show ?thesis
  proof (cases "x = []")
    case True
    then show ?thesis
      by (simp add: conv_def convert_reference_def strip_def is_jira_key_def lower_def
          sentinels_def)
  next
    case False
    with v have "is_jira_key x" "strip x = x" by (simp_all add: valid_value_def)
    then show ?thesis using convert_jira_key [of x mapping ctx] by (simp add: conv_def)
  qed
qed

lemma conv_conv:
  assumes "values_ok mapping"
  shows "conv mapping ctx (conv mapping ctx r) = conv mapping ctx r"
  using conv_cases [OF assms, of ctx r]
proof
  assume "conv mapping ctx r = strip r"
  then show ?thesis by (simp add: conv_def convert_reference_strip)
next
  assume "valid_value (conv mapping ctx r)"
  then show ?thesis by (rule conv_valid)
qed

lemma set_strip: "set (strip s) \<subseteq> set s"
proof -
  have "set (strip s) \<subseteq> set (rev (dropWhile is_space s))"
    unfolding strip_def by (auto dest: set_dropWhileD)
  also have "\<dots> \<subseteq> set s" by (auto dest: set_dropWhileD)
  finally show ?thesis .
qed

lemma strip_keeps: "x \<in> set s \<Longrightarrow> \<not> is_space x \<Longrightarrow> x \<in> set (strip s)"
proof -
  assume x: "x \<in> set s" "\<not> is_space x"
  obtain w1 w2 where s: "s = w1 @ strip s @ w2" and w: "blank w1" "blank w2"
    using strip_decomp [of s] by blast
  from x(2) w have "x \<notin> set w1" "x \<notin> set w2" by (auto simp: blank_def list_all_iff)
  moreover from x(1) s have "x \<in> set w1 \<union> set (strip s) \<union> set w2"
    by (metis set_append Un_assoc)
  ultimately show ?thesis by blast
qed

lemma conv_stripped:
  assumes "values_ok mapping"
  shows "strip (conv mapping ctx r) = conv mapping ctx r"
  using conv_cases [OF assms, of ctx r] valid_value_plain(3) by auto

lemma conv_free:
  assumes "values_ok mapping" "c = CHR ''|'' \<or> c = CHR '',''" "c \<notin> set r"
  shows "c \<notin> set (conv mapping ctx r)"
  using conv_cases [OF assms(1), of ctx r]
proof
  assume "conv mapping ctx r = strip r"
  then show ?thesis using assms(3) set_strip [of r] by auto
next
  assume "valid_value (conv mapping ctx r)"
  then show ?thesis using assms(2) valid_value_plain(1,2) by blast
qed

section \<open>Reading a rewritten value again\<close>

lemma split_on_append_free:
  "c \<notin> set w \<Longrightarrow>
     split_on c (T @ w) = butlast (split_on c T) @ [last (split_on c T) @ w]"
proof (induction T)
  case Nil
  then show ?case by (simp add: split_on_no_sep)
next
  case (Cons x T)
  obtain q qs where q: "split_on c T = q # qs" by (cases "split_on c T") auto
  show ?case
  proof (cases "x = c")
    case True
    then show ?thesis using Cons by (simp add: q)
  next
    case False
    then show ?thesis using Cons by (cases qs) (simp_all add: q)
  qed
qed

lemma split_on_free_append:
  "c \<notin> set w \<Longrightarrow> split_on c (w @ T) = (w @ hd (split_on c T)) # tl (split_on c T)"
proof (induction w)
  case Nil
  then show ?case by (cases "split_on c T") auto
next
  case (Cons x w)
  then have "x \<noteq> c" "c \<notin> set w" by auto
  then show ?case using Cons.IH by (simp add: split_on_Cons del: split_on.simps)
qed

lemma blank_free: "blank w \<Longrightarrow> \<not> is_space c \<Longrightarrow> c \<notin> set w"
  by (auto simp: blank_def list_all_iff)

lemma map_strip_split_on_blank_append:
  assumes "blank w" "\<not> is_space c"
  shows "map strip (split_on c (T @ w)) = map strip (split_on c T)"
proof -
  have ne: "split_on c T \<noteq> []" by simp
  have "map strip (split_on c (T @ w))
      = map strip (butlast (split_on c T)) @ [strip (last (split_on c T) @ w)]"
    using blank_free [OF assms] by (simp add: split_on_append_free)
  also have "\<dots> = map strip (butlast (split_on c T)) @ [strip (last (split_on c T))]"
    using assms(1) by (simp add: strip_append_blank)
  also have "\<dots> = map strip (butlast (split_on c T) @ [last (split_on c T)])"
    by (simp only: map_append list.map)
  also have "\<dots> = map strip (split_on c T)" by (simp only: append_butlast_last_id [OF ne])
  finally show ?thesis .
qed

lemma map_strip_split_on_append_blank:
  assumes "blank w" "\<not> is_space c"
  shows "map strip (split_on c (w @ T)) = map strip (split_on c T)"
proof -
  obtain q qs where q: "split_on c T = q # qs" by (cases "split_on c T") auto
  show ?thesis
    using blank_free [OF assms] assms(1)
    by (simp add: split_on_free_append q strip_blank_append)
qed

lemma map_strip_split_on_strip:
  assumes "\<not> is_space c"
  shows "map strip (split_on c (strip s)) = map strip (split_on c s)"
proof -
  obtain w1 w2 where s: "s = w1 @ strip s @ w2" and w: "blank w1" "blank w2"
    using strip_decomp [of s] by blast
  have "map strip (split_on c (w1 @ (strip s @ w2))) = map strip (split_on c (strip s @ w2))"
    using w(1) assms by (rule map_strip_split_on_append_blank)
  also have "\<dots> = map strip (split_on c (strip s))"
    using w(2) assms by (rule map_strip_split_on_blank_append)
  finally show ?thesis using s by simp
qed

lemma not_space_comma [simp]: "\<not> is_space CHR '',''"
  by (simp add: is_space_def)

lemma blank_space [simp]: "blank '' ''"
  by (simp add: blank_def is_space_def)

lemma map_strip_split_on_join:
  "xs \<noteq> [] \<Longrightarrow> \<forall>x \<in> set xs. strip x = x \<and> CHR '','' \<notin> set x \<Longrightarrow>
     map strip (split_on CHR '','' (join '', '' xs @ '' '')) = xs"
proof (induction xs)
  case Nil
  then show ?case by simp
next
  case (Cons x xs)
  show ?case
  proof (cases xs)
    case Nil
    with Cons.prems show ?thesis
      by (simp add: split_on_no_sep strip_append_blank)
  next
    case (Cons y ys)
    let ?T = "join '', '' xs @ '' ''"
    have "join '', '' (x # xs) @ '' '' = x @ CHR '','' # ('' '' @ ?T)"
      using Cons by simp
    then have "map strip (split_on CHR '','' (join '', '' (x # xs) @ '' ''))
        = strip x # map strip (split_on CHR '','' ('' '' @ ?T))"
      using Cons.prems by (simp add: split_on_append_sep del: split_on.simps)
    also have "map strip (split_on CHR '','' ('' '' @ ?T)) = map strip (split_on CHR '','' ?T)"
      by (rule map_strip_split_on_append_blank) simp_all
    also have "\<dots> = xs" using Cons.IH Cons.prems Cons by simp
    finally show ?thesis using Cons.prems by simp
  qed
qed

lemma field_refs_join:
  assumes "xs \<noteq> []" "\<forall>x \<in> set xs. strip x = x \<and> CHR '','' \<notin> set x"
  shows "field_refs (join '', '' xs @ '' '') = xs"
  unfolding field_refs_def
  by (simp only: map_strip_split_on_strip [OF not_space_comma]
      map_strip_split_on_join [OF assms])

lemma field_refs_blank_append: "blank w \<Longrightarrow> field_refs (w @ s) = field_refs s"
  by (simp add: field_refs_def strip_blank_append)

lemma set_split_on: "p \<in> set (split_on c s) \<Longrightarrow> set p \<subseteq> set s"
proof (induction s arbitrary: p)
  case Nil
  then show ?case by simp
next
  case (Cons x s)
  obtain q qs where q: "split_on c s = q # qs" by (cases "split_on c s") auto
  from Cons.prems Cons.IH [of q] Cons.IH [of p] show ?case
    by (auto simp: q split: if_splits)
qed

lemma field_refs_token:
  assumes "t \<in> set (field_refs s)"
  shows "set t \<subseteq> set s" and "CHR '','' \<notin> set t" and "strip t = t"
proof -
  from assms obtain p where p: "p \<in> set (split_on CHR '','' (strip s))" and t: "t = strip p"
    by (auto simp: field_refs_def)
  have "set t \<subseteq> set p" unfolding t by (rule set_strip)
  also have "\<dots> \<subseteq> set (strip s)" using p by (rule set_split_on)
  also have "\<dots> \<subseteq> set s" by (rule set_strip)
  finally show "set t \<subseteq> set s" .
  have "CHR '','' \<notin> set p" using p by (rule split_on_free)
  then show "CHR '','' \<notin> set t" using set_strip [of p] t by auto
  show "strip t = t" by (simp add: t)
qed

lemma field_refs_single:
  assumes "field_refs s = [t]"
  shows "t = strip s"
proof -
  from assms obtain p where p: "split_on CHR '','' (strip s) = [p]" and t: "t = strip p"
    by (auto simp: field_refs_def)
  have "join '','' (split_on CHR '','' (strip s)) = strip s" by (rule join_split_on)
  then have "p = strip s" by (simp add: p)
  then show ?thesis by (simp add: t)
qed

lemma field_refs_plain:
  assumes "CHR '','' \<notin> set (strip s)"
  shows "field_refs s = [strip s]"
  using assms by (simp add: field_refs_def split_on_no_sep)

lemma set_join: "set (join sep xs) \<subseteq> set sep \<union> \<Union> (set ` set xs)"
  by (induction sep xs rule: join.induct) auto

lemma sep_in_join: "length xs \<ge> 2 \<Longrightarrow> CHR '','' \<in> set (join '', '' xs)"
  by (induction "'', ''" xs rule: join.induct) auto

lemma hd_join:
  assumes "\<forall>x \<in> set xs. strip x = x" "join '', '' xs \<noteq> []"
  shows "\<not> is_space (hd (join '', '' xs))"
proof (cases xs)
  case Nil
  with assms show ?thesis by simp
next
  case (Cons x ys)
  show ?thesis
  proof (cases "x = []")
    case True
    with assms(2) Cons have "ys \<noteq> []" by auto
    then show ?thesis using True Cons by (cases ys) simp_all
  next
    case False
    from assms(1) Cons have "strip x = x" by simp
    with False strip_head [of x] have "\<not> is_space (hd x)" by simp
    moreover have "hd (join '', '' xs) = hd x" using False Cons by (cases ys) simp_all
    ultimately show ?thesis by simp
  qed
qed

section \<open>Rewriting one value cell\<close>

lemma strip_dropWhile: "strip (dropWhile is_space c) = strip c"
  by (simp add: strip_def)

lemma rewrite_cell_blank:
  assumes "blank c" "c \<noteq> []"
  shows "rewrite_cell mapping ctx c = c"
proof -
  have "is_space (last c)" using assms by (auto simp: blank_def list_all_iff)
  then have "strip [last c] = []" by (simp add: strip_def)
  then have "rewrite_value mapping ctx [last c] = [last c]"
    by (simp add: rewrite_value_def lower_def sentinels_def)
  then show ?thesis using assms by (simp add: rewrite_cell_def value_space_def value_text_def)
qed

lemma rewrite_cell_sentinel:
  assumes "lower (strip c) \<in> set sentinels" "c \<noteq> []"
  shows "rewrite_cell mapping ctx c = c"
proof (cases "blank c")
  case True
  then show ?thesis using assms(2) by (rule rewrite_cell_blank)
next
  case False
  then show ?thesis
    using assms(1)
    by (simp add: rewrite_cell_def value_space_def value_text_def rewrite_value_def
        strip_dropWhile)
qed

lemma rewrite_cell_other:
  assumes "lower (strip c) \<notin> set sentinels"
  shows "rewrite_cell mapping ctx c
           = takeWhile is_space c @ join '', '' (map (conv mapping ctx) (field_refs c)) @ '' ''"
proof -
  have "strip c \<noteq> []" using assms by (auto simp: lower_def sentinels_def)
  then have nb: "\<not> blank c" by (simp add: strip_Nil_iff)
  have "field_refs (dropWhile is_space c) = field_refs c"
    by (simp add: field_refs_def strip_dropWhile)
  moreover have "conv mapping ctx = (\<lambda>ref. fst (convert_reference ref mapping ctx))"
    by (rule ext) (simp add: conv_def)
  ultimately show ?thesis
    using assms nb
    by (simp add: rewrite_cell_def value_space_def value_text_def rewrite_value_def
        strip_dropWhile)
qed

lemma rewrite_cell_not_Nil: "c \<noteq> [] \<Longrightarrow> rewrite_cell mapping ctx c \<noteq> []"
proof (cases "lower (strip c) \<in> set sentinels")
  case True
  assume "c \<noteq> []"
  with True show ?thesis by (simp add: rewrite_cell_sentinel)
next
  case False
  then show ?thesis by (simp add: rewrite_cell_other)
qed

lemma conv_field_refs:
  assumes "values_ok mapping" "x \<in> set (map (conv mapping ctx) (field_refs c))"
  shows "strip x = x" and "CHR '','' \<notin> set x" and "conv mapping ctx x = x"
    and "CHR ''|'' \<notin> set c \<Longrightarrow> CHR ''|'' \<notin> set x"
proof -
  from assms(2) obtain t where t: "t \<in> set (field_refs c)" and x: "x = conv mapping ctx t"
    by auto
  show "strip x = x" unfolding x using assms(1) by (rule conv_stripped)
  show "CHR '','' \<notin> set x"
    unfolding x using assms(1) field_refs_token(2) [OF t] by (intro conv_free) simp_all
  show "conv mapping ctx x = x" unfolding x using assms(1) by (rule conv_conv)
  show "CHR ''|'' \<notin> set x" if "CHR ''|'' \<notin> set c"
    unfolding x using assms(1) field_refs_token(1) [OF t] that by (intro conv_free) auto
qed

text \<open>A rewritten cell is rewritten to itself.\<close>

lemma rewrite_cell_idem:
  assumes ok: "values_ok mapping" and ne: "c \<noteq> []"
  shows "rewrite_cell mapping ctx (rewrite_cell mapping ctx c) = rewrite_cell mapping ctx c"
proof (cases "lower (strip c) \<in> set sentinels")
  case True
  then show ?thesis using ne by (simp add: rewrite_cell_sentinel)
next
  case False
  define w where "w = takeWhile is_space c"
  define xs where "xs = map (conv mapping ctx) (field_refs c)"
  define J where "J = join '', '' xs"
  define c' where "c' = w @ J @ '' ''"
  have c': "rewrite_cell mapping ctx c = c'"
    using False by (simp add: rewrite_cell_other c'_def J_def xs_def w_def)
  have w: "blank w" by (simp add: w_def)
  have xs_ne: "xs \<noteq> []" by (simp add: xs_def length_field_refs_pos)
  have xs: "\<forall>x \<in> set xs. strip x = x \<and> CHR '','' \<notin> set x"
    unfolding xs_def using conv_field_refs(1,2) [OF ok] by blast
  have "\<And>x. x \<in> set xs \<Longrightarrow> conv mapping ctx x = x"
    unfolding xs_def by (rule conv_field_refs(3) [OF ok])
  then have xs_conv: "map (conv mapping ctx) xs = xs" by (rule map_idI)
  have c'_ne: "c' \<noteq> []" by (simp add: c'_def)
  show ?thesis
  proof (cases "lower (strip c') \<in> set sentinels")
    case True
    then show ?thesis unfolding c' using c'_ne by (rule rewrite_cell_sentinel)
  next
    case False
    then have "strip c' \<noteq> []" by (auto simp: lower_def sentinels_def)
    then have "\<not> blank c'" by (simp add: strip_Nil_iff)
    then have "\<not> blank J" using w by (simp add: c'_def)
    then have J_ne: "J \<noteq> []" by (auto simp: blank_def)
    have "\<forall>x \<in> set xs. strip x = x" using xs by blast
    then have hd: "\<not> is_space (hd J)" unfolding J_def using J_ne [unfolded J_def] by (rule hd_join)
    have "takeWhile is_space (J @ '' '') = []" using J_ne hd by (rule takeWhile_head)
    then have tk: "takeWhile is_space c' = w"
      unfolding c'_def by (simp add: takeWhile_blank [OF w])
    have "field_refs c' = field_refs (J @ '' '')"
      unfolding c'_def using w by (rule field_refs_blank_append)
    also have "\<dots> = xs" unfolding J_def using xs_ne xs by (rule field_refs_join)
    finally have fr: "field_refs c' = xs" .
    have "rewrite_cell mapping ctx c' = w @ join '', '' (map (conv mapping ctx) xs) @ '' ''"
      using False by (simp add: rewrite_cell_other tk fr)
    then show ?thesis unfolding c' by (simp add: xs_conv c'_def J_def)
  qed
qed

lemma rewrite_cell_free:
  assumes ok: "values_ok mapping" and ne: "c \<noteq> []" and c: "CHR ''|'' \<notin> set c"
  shows "CHR ''|'' \<notin> set (rewrite_cell mapping ctx c)"
proof (cases "lower (strip c) \<in> set sentinels")
  case True
  then show ?thesis using ne c by (simp add: rewrite_cell_sentinel)
next
  case False
  let ?xs = "map (conv mapping ctx) (field_refs c)"
  have "CHR ''|'' \<notin> set (takeWhile is_space c)" using c by (auto dest: set_takeWhileD)
  moreover have "CHR ''|'' \<notin> set (join '', '' ?xs)"
  proof
    assume "CHR ''|'' \<in> set (join '', '' ?xs)"
    then have "CHR ''|'' \<in> set '', '' \<union> \<Union> (set ` set ?xs)" using set_join by blast
    then obtain x where "x \<in> set ?xs" "CHR ''|'' \<in> set x" by auto
    then show False using conv_field_refs(4) [OF ok _ c] by blast
  qed
  ultimately show ?thesis using False by (simp add: rewrite_cell_other)
qed

section \<open>Labels and rewritten cells\<close>

definition plain_label :: "string \<Rightarrow> bool" where
  "plain_label G = (label_ok G \<and> CHR '','' \<notin> set G \<and> \<not> valid_value G)"

lemma default_field_names_plain: "list_all plain_label default_field_names"
  by code_simp

lemma plain_label_default: "G \<in> set default_field_names \<Longrightarrow> plain_label G"
  using default_field_names_plain by (simp add: list_all_iff)

text \<open>A rewritten cell holds a label only if the cell held it before.\<close>

lemma label_after_rewrite:
  assumes ok: "values_ok mapping" and ne: "c \<noteq> []" and G: "plain_label G"
    and s: "strip (rewrite_cell mapping ctx c) = G"
  shows "strip c = G"
proof (cases "lower (strip c) \<in> set sentinels")
  case True
  then show ?thesis using ne s by (simp add: rewrite_cell_sentinel)
next
  case False
  let ?xs = "map (conv mapping ctx) (field_refs c)"
  have "strip (takeWhile is_space c @ join '', '' ?xs @ '' '') = strip (join '', '' ?xs)"
    by (simp add: strip_blank_append strip_append_blank)
  then have sj: "strip (join '', '' ?xs) = G" using s False by (simp add: rewrite_cell_other)
  have "\<not> length ?xs \<ge> 2"
  proof
    assume "length ?xs \<ge> 2"
    then have "CHR '','' \<in> set (join '', '' ?xs)" by (rule sep_in_join)
    then have "CHR '','' \<in> set (strip (join '', '' ?xs))" by (rule strip_keeps) simp
    then show False using G sj by (simp add: plain_label_def)
  qed
  moreover have "field_refs c \<noteq> []" by (rule length_field_refs_pos)
  ultimately obtain t where t: "field_refs c = [t]"
    by (cases "field_refs c"; cases "tl (field_refs c)") auto
  then have t': "t = strip c" by (rule field_refs_single)
  have "strip (conv mapping ctx t) = G" using sj t by simp
  then have g: "conv mapping ctx t = G" using conv_stripped [OF ok] by simp
  from conv_cases [OF ok, of ctx t] show ?thesis
  proof
    assume "conv mapping ctx t = strip t"
    then show ?thesis using g t' by simp
  next
    assume "valid_value (conv mapping ctx t)"
    then show ?thesis using g G by (simp add: plain_label_def)
  qed
qed

text \<open>A label that the table does not resolve stays where it is.\<close>

lemma label_before_rewrite:
  assumes G: "plain_label G" and un: "lookup_reference mapping ctx G = None"
    and s: "strip c = G"
  shows "strip (rewrite_cell mapping ctx c) = G"
proof (cases "lower (strip c) \<in> set sentinels")
  case True
  have "c \<noteq> []" using s G by (auto simp: plain_label_def label_ok_def strip_def)
  with True show ?thesis using s by (simp add: rewrite_cell_sentinel)
next
  case False
  have sg: "strip G = G" using s [symmetric] by simp
  have "\<not> is_jira_key G" using G sg by (auto simp: plain_label_def valid_value_def)
  then have "convert_reference G mapping ctx = (G, False)"
    using False s un sg by (simp add: convert_reference_def)
  then have cv: "conv mapping ctx G = G" by (simp add: conv_def)
  have "CHR '','' \<notin> set (strip c)" using G s by (simp add: plain_label_def)
  then have "field_refs c = [G]" using s by (simp add: field_refs_plain)
  then have "rewrite_cell mapping ctx c = takeWhile is_space c @ G @ '' ''"
    using False by (simp add: rewrite_cell_other cv)
  then show ?thesis by (simp add: strip_blank_append strip_append_blank sg)
qed

section \<open>The fields one after the other, on cells\<close>

fun fix_cells ::
  "ReferenceMapping \<Rightarrow> ref_context \<Rightarrow> string list \<Rightarrow> string list \<Rightarrow> string list" where
  "fix_cells mapping ctx [] cells = cells"
| "fix_cells mapping ctx (F # Fs) cells =
     fix_cells mapping ctx Fs (sub_cells F (rewrite_cell mapping ctx) cells)"

lemma length_fix_cells [simp]: "length (fix_cells mapping ctx Fs cells) = length cells"
  by (induction Fs arbitrary: cells) simp_all

lemma sub_cells_free:
  assumes "values_ok mapping"
  shows "\<forall>x \<in> set cells. CHR ''|'' \<notin> set x \<Longrightarrow>
         \<forall>x \<in> set (sub_cells F (rewrite_cell mapping ctx) cells). CHR ''|'' \<notin> set x"
proof (induction F "rewrite_cell mapping ctx" cells rule: sub_cells.induct)
  case (1 F a b c d rest)
  show ?case
  proof (cases "strip b = F \<and> c \<noteq> []")
    case True
    then have "CHR ''|'' \<notin> set (rewrite_cell mapping ctx c)"
      using "1.prems" by (intro rewrite_cell_free [OF assms]) simp_all
    moreover have "\<forall>x \<in> set (sub_cells F (rewrite_cell mapping ctx) (d # rest)). CHR ''|'' \<notin> set x"
      using True "1.hyps"(1) "1.prems" by simp
    moreover have "sub_cells F (rewrite_cell mapping ctx) (a # b # c # d # rest)
        = a # b # rewrite_cell mapping ctx c # sub_cells F (rewrite_cell mapping ctx) (d # rest)"
      using True by (simp only: sub_cells.simps(1) if_True simp_thms)
    ultimately show ?thesis using "1.prems" by simp
  next
    case False
    have "\<forall>x \<in> set (sub_cells F (rewrite_cell mapping ctx) (b # c # d # rest)). CHR ''|'' \<notin> set x"
      using False "1.hyps"(2) "1.prems" by simp
    moreover have "sub_cells F (rewrite_cell mapping ctx) (a # b # c # d # rest)
        = a # sub_cells F (rewrite_cell mapping ctx) (b # c # d # rest)"
      using False by (simp only: sub_cells.simps(1) if_False simp_thms)
    ultimately show ?thesis using "1.prems" by simp
  qed
qed simp_all

lemma fix_cells_free:
  assumes "values_ok mapping"
  shows "\<forall>x \<in> set cells. CHR ''|'' \<notin> set x \<Longrightarrow>
         \<forall>x \<in> set (fix_cells mapping ctx Fs cells). CHR ''|'' \<notin> set x"
proof (induction Fs arbitrary: cells)
  case Nil
  then show ?case by simp
next
  case (Cons F Fs)
  have "\<forall>x \<in> set (sub_cells F (rewrite_cell mapping ctx) cells). CHR ''|'' \<notin> set x"
    using Cons.prems by (rule sub_cells_free [OF assms])
  then show ?case using Cons.IH by simp
qed

lemma fix_cells_not_Nil [simp]: "fix_cells mapping ctx Fs cells = [] \<longleftrightarrow> cells = []"
  using length_fix_cells [of mapping ctx Fs cells] by (simp only: length_0_conv [symmetric])

lemma fix_fields_cells:
  assumes ok: "values_ok mapping"
  shows "\<forall>F \<in> set Fs. label_ok F \<Longrightarrow> cells \<noteq> [] \<Longrightarrow> \<forall>x \<in> set cells. CHR ''|'' \<notin> set x \<Longrightarrow>
         fst (fix_fields mapping ctx Fs (join ''|'' cells, st))
           = join ''|'' (fix_cells mapping ctx Fs cells)"
proof (induction Fs arbitrary: cells st)
  case Nil
  show ?case by simp
next
  case (Cons F Fs)
  let ?p = "re_sub_field F (replace_refs F mapping ctx) (join ''|'' cells) st"
  let ?cs = "sub_cells F (rewrite_cell mapping ctx) cells"
  have F: "label_ok F" using Cons.prems(1) by simp
  have 1: "fst ?p = join ''|'' ?cs"
    using F Cons.prems(2,3) by (rule re_sub_field_cells)
  have 2: "?cs \<noteq> []" using Cons.prems(2) by simp
  have 3: "\<forall>x \<in> set ?cs. CHR ''|'' \<notin> set x"
    using Cons.prems(3) by (rule sub_cells_free [OF ok])
  have 4: "\<forall>F \<in> set Fs. label_ok F" using Cons.prems(1) by simp
  have "fix_fields mapping ctx (F # Fs) (join ''|'' cells, st)
          = fix_fields mapping ctx Fs (fst ?p, snd ?p)"
    by simp
  also have "fst \<dots> = join ''|'' (fix_cells mapping ctx Fs ?cs)"
    unfolding 1 using Cons.IH [OF 4 2 3] by simp
  finally show ?case by simp
qed

definition cells_of :: "string \<Rightarrow> string list" where
  "cells_of content = split_on CHR ''|'' content"

definition names_of :: "string list option \<Rightarrow> string list" where
  "names_of field_names = (case field_names of None \<Rightarrow> default_field_names | Some names \<Rightarrow> names)"

lemma plain_label_ok: "plain_label F \<Longrightarrow> label_ok F"
  by (simp add: plain_label_def)

lemma fix_references_cells:
  assumes "values_ok mapping" "\<forall>F \<in> set (names_of field_names). plain_label F"
  shows "cells_of (fst (fix_references_in_content content mapping ctx field_names))
           = fix_cells mapping ctx (names_of field_names) (cells_of content)"
proof -
  let ?cs = "cells_of content"
  have c: "content = join ''|'' ?cs" by (simp add: cells_of_def join_split_on)
  have ne: "?cs \<noteq> []" by (simp add: cells_of_def)
  have fr: "\<forall>x \<in> set ?cs. CHR ''|'' \<notin> set x"
    by (auto simp: cells_of_def dest: split_on_free)
  have lab: "\<forall>F \<in> set (names_of field_names). label_ok F"
    using assms(2) by (auto dest: plain_label_ok)
  have "fst (fix_references_in_content content mapping ctx field_names)
          = fst (fix_fields mapping ctx (names_of field_names) (join ''|'' ?cs, 0, []))"
    using c by (simp add: fix_references_in_content_def names_of_def)
  also have "\<dots> = join ''|'' (fix_cells mapping ctx (names_of field_names) ?cs)"
    using lab ne fr by (rule fix_fields_cells [OF assms(1)])
  finally have "cells_of (fst (fix_references_in_content content mapping ctx field_names))
      = split_on CHR ''|'' (join ''|'' (fix_cells mapping ctx (names_of field_names) ?cs))"
    by (simp add: cells_of_def)
  also have "\<dots> = fix_cells mapping ctx (names_of field_names) ?cs"
    using ne fix_cells_free [OF assms(1) fr] by (intro split_on_join) simp_all
  finally show ?thesis .
qed

section \<open>Which cells a pass rewrites\<close>

lemma sub_cells_nth:
  "i < length cells \<Longrightarrow>
     sub_cells F f cells ! i = cells ! i
     \<or> (0 < i \<and> Suc i < length cells \<and> strip (cells ! (i - 1)) = F \<and> cells ! i \<noteq> []
        \<and> sub_cells F f cells ! i = f (cells ! i))"
proof (induction F f cells arbitrary: i rule: sub_cells.induct)
  case (1 F f a b c d rest)
  show ?case
  proof (cases "strip b = F \<and> c \<noteq> []")
    case True
    show ?thesis
    proof (cases "i < 3")
      case True
      then have "i = 0 \<or> i = 1 \<or> i = 2" by arith
      with \<open>strip b = F \<and> c \<noteq> []\<close> show ?thesis by auto
    next
      case False
      then obtain j where j: "i = Suc (Suc (Suc j))" by (metis not_less numeral_3_eq_3 less_eq_Suc_le Suc_le_D)
      with "1.prems" have "j < length (d # rest)" by simp
      from "1.IH"(1) [OF True this] True j show ?thesis
        by (cases j) auto
    qed
  next
    case False
    show ?thesis
    proof (cases i)
      case 0
      then show ?thesis using False by simp
    next
      case (Suc j)
      with "1.prems" have "j < length (b # c # d # rest)" by simp
      from "1.IH"(2) [OF False this] False Suc show ?thesis
        by (cases j) auto
    qed
  qed
qed simp_all

section \<open>What the passes keep\<close>

lemma sub_cells_label:
  assumes "values_ok mapping" "plain_label G" "i < length cells"
    and "strip (sub_cells F (rewrite_cell mapping ctx) cells ! i) = G"
  shows "strip (cells ! i) = G"
  using sub_cells_nth [OF assms(3), of F "rewrite_cell mapping ctx"]
proof
  assume "sub_cells F (rewrite_cell mapping ctx) cells ! i = cells ! i"
  with assms(4) show ?thesis by simp
next
  assume a: "0 < i \<and> Suc i < length cells \<and> strip (cells ! (i - 1)) = F \<and> cells ! i \<noteq> []
        \<and> sub_cells F (rewrite_cell mapping ctx) cells ! i = rewrite_cell mapping ctx (cells ! i)"
  then have "strip (rewrite_cell mapping ctx (cells ! i)) = G" using assms(4) by simp
  with a show ?thesis using label_after_rewrite [OF assms(1) _ assms(2)] by blast
qed

lemma fix_cells_label:
  assumes "values_ok mapping" "plain_label G"
  shows "i < length cells \<Longrightarrow> strip (fix_cells mapping ctx Fs cells ! i) = G
         \<Longrightarrow> strip (cells ! i) = G"
proof (induction Fs arbitrary: cells)
  case Nil
  then show ?case by simp
next
  case (Cons F Fs)
  let ?mid = "sub_cells F (rewrite_cell mapping ctx) cells"
  have "i < length ?mid" using Cons.prems(1) by simp
  then have "strip (?mid ! i) = G" using Cons.prems(2) Cons.IH [of ?mid] by simp
  then show ?case using sub_cells_label [OF assms Cons.prems(1)] by blast
qed

text \<open>A cell that the passes change stands behind a cell that holds one of the fields.\<close>

lemma fix_cells_nth:
  assumes ok: "values_ok mapping"
  shows "\<forall>F \<in> set Fs. plain_label F \<Longrightarrow> i < length cells
         \<Longrightarrow> fix_cells mapping ctx Fs cells ! i \<noteq> cells ! i
         \<Longrightarrow> 0 < i \<and> Suc i < length cells \<and> strip (cells ! (i - 1)) \<in> set Fs"
proof (induction Fs arbitrary: cells)
  case Nil
  then show ?case by simp
next
  case (Cons F Fs)
  let ?mid = "sub_cells F (rewrite_cell mapping ctx) cells"
  have len: "i < length ?mid" using Cons.prems(2) by simp
  have pl: "\<forall>F \<in> set Fs. plain_label F" using Cons.prems(1) by simp
  show ?case
  proof (cases "fix_cells mapping ctx Fs ?mid ! i = ?mid ! i")
    case True
    then have "?mid ! i \<noteq> cells ! i" using Cons.prems(3) by simp
    with sub_cells_nth [OF Cons.prems(2), of F "rewrite_cell mapping ctx"]
    show ?thesis by auto
  next
    case False
    from Cons.IH [OF pl len False]
    have a: "0 < i" "Suc i < length cells" "strip (?mid ! (i - 1)) \<in> set Fs" by simp_all
    define G where "G = strip (?mid ! (i - 1))"
    have "plain_label G" using a(3) pl by (simp add: G_def)
    moreover have "i - 1 < length cells" using Cons.prems(2) by simp
    ultimately have "strip (cells ! (i - 1)) = G"
      using G_def sub_cells_label [OF ok, of G "i - 1" cells F ctx] by simp
    then show ?thesis using a by (simp add: G_def)
  qed
qed

lemma conv_unresolved:
  assumes "strip t = t" "\<not> is_jira_key t" "lower t \<notin> set sentinels"
    "lookup_reference mapping ctx t = None"
  shows "conv mapping ctx t = t"
  using convert_reference_unresolved(1) [OF assms] by (simp add: conv_def)

text \<open>A reference that is converted to itself is a reference of the rewritten cell.\<close>

lemma rewrite_cell_keeps_token:
  assumes ok: "values_ok mapping" and ne: "c \<noteq> []"
    and t: "t \<in> set (field_refs c)" and cv: "conv mapping ctx t = t"
  shows "t \<in> set (field_refs (rewrite_cell mapping ctx c))"
proof (cases "lower (strip c) \<in> set sentinels")
  case True
  then show ?thesis using ne t by (simp add: rewrite_cell_sentinel)
next
  case False
  define xs where "xs = map (conv mapping ctx) (field_refs c)"
  have xs_ne: "xs \<noteq> []" by (simp add: xs_def length_field_refs_pos)
  have xs: "\<forall>x \<in> set xs. strip x = x \<and> CHR '','' \<notin> set x"
    unfolding xs_def using conv_field_refs(1,2) [OF ok] by blast
  have "field_refs (takeWhile is_space c @ (join '', '' xs @ '' ''))
          = field_refs (join '', '' xs @ '' '')"
    by (rule field_refs_blank_append) simp
  also have "\<dots> = xs" using xs_ne xs by (rule field_refs_join)
  finally have "field_refs (rewrite_cell mapping ctx c) = xs"
    using False by (simp add: rewrite_cell_other xs_def)
  moreover have "t \<in> set xs" unfolding xs_def using t cv by force
  ultimately show ?thesis by simp
qed

lemma sub_cells_keeps_token:
  assumes "values_ok mapping" "i < length cells" "t \<in> set (field_refs (cells ! i))"
    "conv mapping ctx t = t"
  shows "t \<in> set (field_refs (sub_cells F (rewrite_cell mapping ctx) cells ! i))"
  using sub_cells_nth [OF assms(2), of F "rewrite_cell mapping ctx"]
proof
  assume "sub_cells F (rewrite_cell mapping ctx) cells ! i = cells ! i"
  with assms(3) show ?thesis by simp
next
  assume a: "0 < i \<and> Suc i < length cells \<and> strip (cells ! (i - 1)) = F \<and> cells ! i \<noteq> []
        \<and> sub_cells F (rewrite_cell mapping ctx) cells ! i = rewrite_cell mapping ctx (cells ! i)"
  then show ?thesis using rewrite_cell_keeps_token [OF assms(1) _ assms(3,4)] by simp
qed

lemma fix_cells_keeps_token:
  assumes "values_ok mapping" "conv mapping ctx t = t"
  shows "i < length cells \<Longrightarrow> t \<in> set (field_refs (cells ! i))
         \<Longrightarrow> t \<in> set (field_refs (fix_cells mapping ctx Fs cells ! i))"
proof (induction Fs arbitrary: cells)
  case Nil
  then show ?case by simp
next
  case (Cons F Fs)
  let ?mid = "sub_cells F (rewrite_cell mapping ctx) cells"
  have "t \<in> set (field_refs (?mid ! i))"
    using assms(1) Cons.prems assms(2) by (rule sub_cells_keeps_token)
  moreover have "i < length ?mid" using Cons.prems(1) by simp
  ultimately show ?case using Cons.IH [of ?mid] by simp
qed

lemma sub_cells_not_empty:
  assumes "i < length cells" "cells ! i \<noteq> []"
  shows "sub_cells F (rewrite_cell mapping ctx) cells ! i \<noteq> []"
  using sub_cells_nth [OF assms(1), of F "rewrite_cell mapping ctx"] assms(2)
  by (auto simp: rewrite_cell_not_Nil)

lemma fix_cells_not_empty:
  "i < length cells \<Longrightarrow> cells ! i \<noteq> [] \<Longrightarrow> fix_cells mapping ctx Fs cells ! i \<noteq> []"
proof (induction Fs arbitrary: cells)
  case Nil
  then show ?case by simp
next
  case (Cons F Fs)
  let ?mid = "sub_cells F (rewrite_cell mapping ctx) cells"
  have "?mid ! i \<noteq> []" using Cons.prems by (rule sub_cells_not_empty)
  moreover have "i < length ?mid" using Cons.prems(1) by simp
  ultimately show ?case using Cons.IH [of ?mid] by simp
qed

section \<open>The rows that a pass matches, on cells\<close>

fun matched_values :: "string \<Rightarrow> string list \<Rightarrow> string list" where
  "matched_values F (a # b # c # d # rest) =
     (if strip b = F \<and> c \<noteq> [] then value_text c # matched_values F (d # rest)
      else matched_values F (b # c # d # rest))"
| "matched_values F cells = []"

lemma matched_rows_skip: "CHR ''|'' \<notin> set a \<Longrightarrow> matched_rows F (a @ t) = matched_rows F t"
  by (induction a) (auto simp: match_field_not_bar)

lemma matched_rows_skip_all: "CHR ''|'' \<notin> set a \<Longrightarrow> matched_rows F a = []"
  using matched_rows_skip [of a F "[]"] by simp

lemma matched_rows_short1: "CHR ''|'' \<notin> set a \<Longrightarrow> matched_rows F a = []"
  by (rule matched_rows_skip_all)

lemma matched_rows_short2:
  assumes "CHR ''|'' \<notin> set a" "CHR ''|'' \<notin> set b"
  shows "matched_rows F (a @ CHR ''|'' # b) = []"
proof -
  have m: "match_field F (CHR ''|'' # b) = None" using assms by (simp add: match_field_one_cell)
  have "matched_rows F (a @ CHR ''|'' # b) = matched_rows F (CHR ''|'' # b)"
    using assms(1) by (rule matched_rows_skip)
  also have "\<dots> = matched_rows F b" using m by simp
  also have "\<dots> = []" using assms(2) by (rule matched_rows_skip_all)
  finally show ?thesis .
qed

lemma matched_rows_short3:
  assumes "label_ok F" "CHR ''|'' \<notin> set a" "CHR ''|'' \<notin> set b" "CHR ''|'' \<notin> set c"
  shows "matched_rows F (a @ CHR ''|'' # b @ CHR ''|'' # c) = []"
proof -
  have m: "match_field F (CHR ''|'' # b @ CHR ''|'' # c) = None"
    using assms by (simp add: match_field_two_cells)
  have "matched_rows F (a @ CHR ''|'' # b @ CHR ''|'' # c)
      = matched_rows F (CHR ''|'' # b @ CHR ''|'' # c)"
    using assms(2) by (rule matched_rows_skip)
  also have "\<dots> = matched_rows F (b @ CHR ''|'' # c)" using m by simp
  also have "\<dots> = []" using assms(3,4) by (rule matched_rows_short2)
  finally show ?thesis .
qed

lemma matched_rows_cells:
  assumes "label_ok F" "cells \<noteq> []" "\<forall>x \<in> set cells. CHR ''|'' \<notin> set x"
  shows "map snd (matched_rows F (join ''|'' cells)) = matched_values F cells"
  using assms
proof (induction F cells rule: matched_values.induct)
  case (1 F a b c d rest)
  let ?T = "join ''|'' (d # rest)"
  note F = "1.prems"(1)
  from "1.prems"(3) have fr: "CHR ''|'' \<notin> set a" "CHR ''|'' \<notin> set b" "CHR ''|'' \<notin> set c"
    and rest: "\<forall>x \<in> set (d # rest). CHR ''|'' \<notin> set x"
    and rest2: "\<forall>x \<in> set (b # c # d # rest). CHR ''|'' \<notin> set x" by simp_all
  have whole: "join ''|'' (a # b # c # d # rest)
               = a @ CHR ''|'' # b @ CHR ''|'' # c @ CHR ''|'' # ?T" by simp
  have skip: "matched_rows F (join ''|'' (a # b # c # d # rest))
      = matched_rows F (CHR ''|'' # b @ CHR ''|'' # c @ CHR ''|'' # ?T)"
    unfolding whole using fr(1) by (rule matched_rows_skip)
  show ?case
  proof (cases "strip b = F \<and> c \<noteq> []")
    case True
    have m: "match_field F (CHR ''|'' # b @ CHR ''|'' # c @ CHR ''|'' # ?T)
               = Some (CHR ''|'' # b @ CHR ''|'' # value_space c, value_text c, ?T)"
      unfolding match_field_cells [OF fr(2) fr(3) F] using True by simp
    have ih: "map snd (matched_rows F ?T) = matched_values F (d # rest)"
      using "1.IH"(1) [OF True F _ rest] by simp
    have "matched_rows F (CHR ''|'' # b @ CHR ''|'' # c @ CHR ''|'' # ?T)
        = (CHR ''|'' # b @ CHR ''|'' # value_space c, value_text c) # matched_rows F ?T"
      using m by simp
    then have "map snd (matched_rows F (join ''|'' (a # b # c # d # rest)))
        = value_text c # matched_values F (d # rest)"
      unfolding skip ih [symmetric] by simp
    moreover have "matched_values F (a # b # c # d # rest)
        = value_text c # matched_values F (d # rest)"
      using True by (simp only: matched_values.simps(1) if_True simp_thms)
    ultimately show ?thesis by simp
  next
    case False
    have m: "match_field F (CHR ''|'' # b @ CHR ''|'' # c @ CHR ''|'' # ?T) = None"
      unfolding match_field_cells [OF fr(2) fr(3) F] using False by simp
    have t2: "b @ CHR ''|'' # c @ CHR ''|'' # ?T = join ''|'' (b # c # d # rest)" by simp
    have ih: "map snd (matched_rows F (join ''|'' (b # c # d # rest)))
                = matched_values F (b # c # d # rest)"
      using "1.IH"(2) [OF False F _ rest2] by simp
    have "matched_rows F (CHR ''|'' # b @ CHR ''|'' # c @ CHR ''|'' # ?T)
        = matched_rows F (b @ CHR ''|'' # c @ CHR ''|'' # ?T)"
      using m by simp
    then have "map snd (matched_rows F (join ''|'' (a # b # c # d # rest)))
        = matched_values F (b # c # d # rest)"
      unfolding skip t2 ih [symmetric] by simp
    moreover have "matched_values F (a # b # c # d # rest) = matched_values F (b # c # d # rest)"
      using False by (simp only: matched_values.simps(1) if_False simp_thms)
    ultimately show ?thesis by simp
  qed
qed (simp_all add: matched_rows_short1 matched_rows_short2 matched_rows_short3)

text \<open>
  A cell behind a cell that holds the field is the value of a matched row, unless the
  scan has used its label as part of the row before.
\<close>

lemma matched_local:
  "2 \<le> i \<Longrightarrow> Suc i < length cells \<Longrightarrow> strip (cells ! (i - 1)) = F \<Longrightarrow> cells ! i \<noteq> []
   \<Longrightarrow> strip (cells ! (i - 2)) \<noteq> F \<Longrightarrow> (3 \<le> i \<longrightarrow> strip (cells ! (i - 3)) \<noteq> F)
   \<Longrightarrow> value_text (cells ! i) \<in> set (matched_values F cells)"
proof (induction F cells arbitrary: i rule: matched_values.induct)
  case (1 F a b c d rest)
  obtain k where k: "i = Suc (Suc k)" using "1.prems"(1)
    by (metis Suc_le_D numeral_2_eq_2 Suc_le_mono)
  show ?case
  proof (cases "strip b = F \<and> c \<noteq> []")
    case True
    show ?thesis
    proof (cases k)
      case 0
      then show ?thesis using True k by simp
    next
      case (Suc k1)
      show ?thesis
      proof (cases k1)
        case 0
        then show ?thesis using True k Suc "1.prems"(5) by (simp add: numeral_2_eq_2)
      next
        case (Suc k2)
        show ?thesis
        proof (cases k2)
          case 0
          then show ?thesis
            using True k \<open>k = Suc k1\<close> \<open>k1 = Suc k2\<close> "1.prems"(6) by (simp add: numeral_3_eq_3)
        next
          case (Suc k3)
          define j where "j = Suc (Suc k3)"
          have i: "i = Suc (Suc (Suc j))" using k \<open>k = Suc k1\<close> \<open>k1 = Suc k2\<close> Suc by (simp add: j_def)
          have p1: "2 \<le> j" by (simp add: j_def)
          have p2: "Suc j < length (d # rest)" using "1.prems"(2) i by simp
          have p3: "strip ((d # rest) ! (j - 1)) = F" using "1.prems"(3) i by (simp add: j_def)
          have p4: "(d # rest) ! j \<noteq> []" using "1.prems"(4) i by simp
          have p5: "strip ((d # rest) ! (j - 2)) \<noteq> F"
            using "1.prems"(5) i by (simp add: j_def numeral_2_eq_2)
          have p6: "3 \<le> j \<longrightarrow> strip ((d # rest) ! (j - 3)) \<noteq> F"
            using "1.prems"(6) i by (cases k3) (simp_all add: j_def numeral_3_eq_3)
          have "value_text ((d # rest) ! j) \<in> set (matched_values F (d # rest))"
            using "1.IH"(1) [OF True p1 p2 p3 p4 p5 p6] .
          then show ?thesis using True i by simp
        qed
      qed
    qed
  next
    case False
    show ?thesis
    proof (cases k)
      case 0
      then show ?thesis using False k "1.prems"(3,4) by simp
    next
      case (Suc k1)
      define j where "j = Suc (Suc k1)"
      have i: "i = Suc j" using k Suc by (simp add: j_def)
      have p1: "2 \<le> j" by (simp add: j_def)
      have p2: "Suc j < length (b # c # d # rest)" using "1.prems"(2) i by simp
      have p3: "strip ((b # c # d # rest) ! (j - 1)) = F" using "1.prems"(3) i by (simp add: j_def)
      have p4: "(b # c # d # rest) ! j \<noteq> []" using "1.prems"(4) i by simp
      have p5: "strip ((b # c # d # rest) ! (j - 2)) \<noteq> F"
        using "1.prems"(5) i by (simp add: j_def numeral_2_eq_2)
      have p6: "3 \<le> j \<longrightarrow> strip ((b # c # d # rest) ! (j - 3)) \<noteq> F"
        using "1.prems"(6) i by (cases k1) (simp_all add: j_def numeral_3_eq_3)
      have "value_text ((b # c # d # rest) ! j) \<in> set (matched_values F (b # c # d # rest))"
        using "1.IH"(2) [OF False p1 p2 p3 p4 p5 p6] .
      moreover have "matched_values F (a # b # c # d # rest) = matched_values F (b # c # d # rest)"
        using False by (simp only: matched_values.simps(1) if_False simp_thms)
      moreover have "(a # b # c # d # rest) ! i = (b # c # d # rest) ! j" using i by simp
      ultimately show ?thesis by (simp only:)
    qed
  qed
qed simp_all

section \<open>Reports of unresolved references\<close>

lemma sentinel_no_comma: "lower s \<in> set sentinels \<Longrightarrow> CHR '','' \<notin> set s"
proof
  assume s: "lower s \<in> set sentinels" and c: "CHR '','' \<in> set s"
  have "lower_char CHR '','' = CHR '',''" by code_simp
  with c have "CHR '','' \<in> set (lower s)" unfolding lower_def by force
  with s show False by (auto simp: sentinels_def)
qed

lemma field_refs_blank: "blank c \<Longrightarrow> field_refs c = [[]]"
proof -
  assume "blank c"
  then have "strip c = []" by (rule strip_blank)
  moreover have "strip [] = []" by (simp add: strip_def)
  ultimately show ?thesis by (simp add: field_refs_def)
qed

lemma token_reported:
  assumes t: "t \<in> set (field_refs c)"
    and un: "\<not> is_jira_key t" "lower t \<notin> set sentinels" "lookup_reference mapping ctx t = None"
  shows "F @ '': '' @ t \<in> set (row_reports F mapping ctx (value_text c))"
proof -
  have st: "strip t = t" using t by (rule field_refs_token(3))
  have rep: "is_reported mapping ctx t" using convert_reference_unresolved(2) [OF st un] .
  have tn: "t \<noteq> []" using un(2) by (auto simp: lower_def sentinels_def)
  have nb: "\<not> blank c" using t tn by (auto simp: field_refs_blank)
  then have vt: "value_text c = dropWhile is_space c" by (simp add: value_text_def)
  have s: "strip (value_text c) = strip c" unfolding vt by (rule strip_dropWhile)
  have fr: "field_refs (value_text c) = field_refs c" by (simp add: field_refs_def s)
  have ns: "lower (strip c) \<notin> set sentinels"
  proof
    assume a: "lower (strip c) \<in> set sentinels"
    then have "CHR '','' \<notin> set (strip c)" by (rule sentinel_no_comma)
    then have "field_refs c = [strip c]" by (rule field_refs_plain)
    with t have "t = strip c" by simp
    with a un(2) show False by simp
  qed
  show ?thesis using ns rep t by (simp add: row_reports_def s fr)
qed

lemma pass_reports:
  assumes "(p, r) \<in> set (matched_rows F (fst (fix_fields mapping ctx before (content, 0, []))))"
    and "x \<in> set (row_reports F mapping ctx r)"
  shows "x \<in> set (snd (snd (fix_fields mapping ctx (before @ F # after) (content, 0, []))))"
proof -
  obtain c1 n1 u1 where b: "fix_fields mapping ctx before (content, 0, []) = (c1, n1, u1)"
    by (cases "fix_fields mapping ctx before (content, 0, [])")
  obtain c2 n2 u2 where s: "re_sub_field F (replace_refs F mapping ctx) c1 (n1, u1) = (c2, n2, u2)"
    by (cases "re_sub_field F (replace_refs F mapping ctx) c1 (n1, u1)")
  have row: "(p, r) \<in> set (matched_rows F c1)" using assms(1) b by simp
  with assms(2) have "x \<in> set (concat (map (\<lambda>(p, r). row_reports F mapping ctx r) (matched_rows F c1)))"
    by auto
  moreover have "u2 = u1 @ concat (map (\<lambda>(p, r). row_reports F mapping ctx r) (matched_rows F c1))"
    using re_sub_field_unresolved [of F mapping ctx c1 n1 u1] s by simp
  ultimately have in_u2: "x \<in> set u2" by simp
  from fix_fields_unresolved_grows [of mapping ctx after c2 n2 u2] obtain ext where
    "snd (snd (fix_fields mapping ctx after (c2, n2, u2))) = u2 @ ext" by blast
  moreover have "fix_fields mapping ctx (before @ F # after) (content, 0, [])
      = fix_fields mapping ctx after (c2, n2, u2)"
    by (simp add: fix_fields_append b s)
  ultimately show ?thesis using in_u2 by simp
qed

lemma cells_of_facts:
  "cells_of content \<noteq> []" "\<forall>x \<in> set (cells_of content). CHR ''|'' \<notin> set x"
  "join ''|'' (cells_of content) = content"
  by (auto simp: cells_of_def join_split_on dest: split_on_free)

lemma field_refs_Nil: "field_refs [] = [[]]"
  by (simp add: field_refs_def strip_def)

text \<open>
  C7. The document is a list of cells, separated by bars. A reference \<open>t\<close> of a cell that
  is not shaped like a remote key, is not a none/empty marker and is found by no lookup,
  global or scoped, is a reference of the same cell of the document that
  \<open>fix_references_in_content\<close> returns. If the cell is the value of a row of the field \<open>F\<close>
  (the cell before it holds \<open>F\<close>, a cell follows, and the two cells before the label are
  no labels that would take the label into their own row), the list of unresolved
  references that is returned holds the entry \<open>F: t\<close>. The table maps to remote keys
  (or to the empty key of an entity that has none), and the field names are plain labels,
  as the four default names are.
\<close>

theorem unresolved_reference_kept_and_reported:
  assumes "\<forall>F \<in> set (names_of field_names). plain_label F"
    and "values_ok mapping"
    and "\<not> is_jira_key t" and "lower t \<notin> set sentinels"
    and "lookup_reference mapping ctx t = None"
    and "i < length (cells_of content)"
    and "t \<in> set (field_refs (cells_of content ! i))"
  shows "length (cells_of (fst (fix_references_in_content content mapping ctx field_names)))
           = length (cells_of content)
       \<and> t \<in> set (field_refs
                    (cells_of (fst (fix_references_in_content content mapping ctx field_names)) ! i))
       \<and> (F \<in> set (names_of field_names) \<and> 2 \<le> i \<and> Suc i < length (cells_of content)
            \<and> strip (cells_of content ! (i - 1)) = F
            \<and> strip (cells_of content ! (i - 2)) \<notin> set (names_of field_names)
            \<and> (3 \<le> i \<longrightarrow> strip (cells_of content ! (i - 3)) \<noteq> F)
          \<longrightarrow> F @ '': '' @ t
                \<in> set (snd (snd (fix_references_in_content content mapping ctx field_names))))"
proof (intro conjI impI)
  let ?names = "names_of field_names"
  let ?cs = "cells_of content"
  have st: "strip t = t" using assms(7) by (rule field_refs_token(3))
  have cv: "conv mapping ctx t = t" using st assms(3,4,5) by (rule conv_unresolved)
  have rep: "cells_of (fst (fix_references_in_content content mapping ctx field_names))
               = fix_cells mapping ctx ?names ?cs"
    using assms(2,1) by (rule fix_references_cells)
  show "length (cells_of (fst (fix_references_in_content content mapping ctx field_names)))
           = length ?cs"
    unfolding rep by simp
  show "t \<in> set (field_refs
                    (cells_of (fst (fix_references_in_content content mapping ctx field_names)) ! i))"
    unfolding rep using assms(6,7) by (rule fix_cells_keeps_token [OF assms(2) cv])
  assume row: "F \<in> set ?names \<and> 2 \<le> i \<and> Suc i < length ?cs
            \<and> strip (?cs ! (i - 1)) = F
            \<and> strip (?cs ! (i - 2)) \<notin> set ?names
            \<and> (3 \<le> i \<longrightarrow> strip (?cs ! (i - 3)) \<noteq> F)"
  then obtain before after where split: "?names = before @ F # after"
    by (meson split_list)
  have plF: "plain_label F" using row assms(1) by blast
  have plB: "\<forall>G \<in> set before. plain_label G" using assms(1) split by simp
  define mid where "mid = fix_cells mapping ctx before ?cs"
  have len: "length mid = length ?cs" by (simp add: mid_def)
  have tn: "t \<noteq> []" using assms(4) by (auto simp: lower_def sentinels_def)
  have ci: "?cs ! i \<noteq> []" using assms(7) tn by (auto simp: field_refs_Nil)
  have m1: "strip (mid ! (i - 1)) = F"
  proof -
    have "mid ! (i - 1) = ?cs ! (i - 1)"
    proof (rule ccontr)
      assume "mid ! (i - 1) \<noteq> ?cs ! (i - 1)"
      moreover have "i - 1 < length ?cs" using assms(6) by simp
      ultimately have "strip (?cs ! (i - 1 - 1)) \<in> set before"
        using fix_cells_nth [OF assms(2) plB, of "i - 1" ?cs ctx] by (simp add: mid_def)
      then have "strip (?cs ! (i - 2)) \<in> set ?names" using split by (simp add: numeral_2_eq_2)
      with row show False by simp
    qed
    with row show ?thesis by simp
  qed
  have m2: "mid ! i \<noteq> []" unfolding mid_def using assms(6) ci by (rule fix_cells_not_empty)
  have m3: "strip (mid ! (i - 2)) \<noteq> F"
  proof
    assume "strip (mid ! (i - 2)) = F"
    moreover have "i - 2 < length ?cs" using assms(6) by simp
    ultimately have "strip (?cs ! (i - 2)) = F"
      using fix_cells_label [OF assms(2) plF, of "i - 2" ?cs ctx before] by (simp add: mid_def)
    moreover from row have "strip (?cs ! (i - 2)) \<notin> set ?names" "F \<in> set ?names" by simp_all
    ultimately show False by simp
  qed
  have m4: "3 \<le> i \<longrightarrow> strip (mid ! (i - 3)) \<noteq> F"
  proof (intro impI notI)
    assume "3 \<le> i" and "strip (mid ! (i - 3)) = F"
    moreover have "i - 3 < length ?cs" using assms(6) by simp
    ultimately have "strip (?cs ! (i - 3)) = F"
      using fix_cells_label [OF assms(2) plF, of "i - 3" ?cs ctx before] by (simp add: mid_def)
    moreover from row \<open>3 \<le> i\<close> have "strip (?cs ! (i - 3)) \<noteq> F" by simp
    ultimately show False by simp
  qed
  have m5: "t \<in> set (field_refs (mid ! i))"
    unfolding mid_def using assms(6,7) by (rule fix_cells_keeps_token [OF assms(2) cv])
  have "value_text (mid ! i) \<in> set (matched_values F mid)"
    using row len m1 m2 m3 m4 by (intro matched_local) simp_all
  moreover have mne: "mid \<noteq> []" by (simp add: mid_def cells_of_facts(1))
  have mfr: "\<forall>x \<in> set mid. CHR ''|'' \<notin> set x"
    unfolding mid_def using cells_of_facts(2) by (rule fix_cells_free [OF assms(2)])
  have "map snd (matched_rows F (join ''|'' mid)) = matched_values F mid"
    using plain_label_ok [OF plF] mne mfr by (rule matched_rows_cells)
  ultimately have "value_text (mid ! i) \<in> snd ` set (matched_rows F (join ''|'' mid))"
    by (metis set_map)
  then obtain p where p: "(p, value_text (mid ! i)) \<in> set (matched_rows F (join ''|'' mid))"
    by force
  have "fst (fix_fields mapping ctx before (join ''|'' ?cs, 0, [])) = join ''|'' mid"
    unfolding mid_def using plB cells_of_facts(1,2)
    by (intro fix_fields_cells [OF assms(2)]) (auto dest: plain_label_ok)
  then have c1: "fst (fix_fields mapping ctx before (content, 0, [])) = join ''|'' mid"
    by (simp add: cells_of_facts(3))
  have "F @ '': '' @ t \<in> set (row_reports F mapping ctx (value_text (mid ! i)))"
    using m5 assms(3,4,5) by (rule token_reported)
  with p have "F @ '': '' @ t
      \<in> set (snd (snd (fix_fields mapping ctx (before @ F # after) (content, 0, []))))"
    unfolding c1 [symmetric] by (rule pass_reports)
  then show "F @ '': '' @ t
      \<in> set (snd (snd (fix_references_in_content content mapping ctx field_names)))"
    using split by (simp add: fix_references_in_content_def names_of_def)
qed


lemma values_ok_demo_mapping: "values_ok demo_mapping"
proof -
  have "valid_value ''K-1''" "valid_value ''K-100''" "valid_value ''K-200''" by code_simp+
  then show ?thesis
    by (auto simp: values_ok_def demo_mapping_def split: if_splits)
qed

definition demo_task_file :: string where
  "demo_task_file = ''| Requires | T2,T1|\<newline>| Unlocks | - |''"

theorem unresolved_reference_kept_and_reported_witness:
  "''T2'' \<in> set (field_refs
                   (cells_of (fst (fix_references_in_content demo_task_file demo_mapping
                                     task_context None)) ! 2))
   \<and> ''Requires: T2''
       \<in> set (snd (snd (fix_references_in_content demo_task_file demo_mapping task_context None)))"
proof -
  have 1: "\<forall>F \<in> set (names_of None). plain_label F"
    by (simp add: names_of_def plain_label_default)
  have 3: "\<not> is_jira_key ''T2''" by code_simp
  have 4: "lower ''T2'' \<notin> set sentinels" by code_simp
  have 5: "lookup_reference demo_mapping task_context ''T2'' = None" by code_simp
  have 6: "2 < length (cells_of demo_task_file)" by code_simp
  have 7: "''T2'' \<in> set (field_refs (cells_of demo_task_file ! 2))" by code_simp
  have 8: "''Requires'' \<in> set (names_of None) \<and> 2 \<le> (2 :: nat)
            \<and> Suc 2 < length (cells_of demo_task_file)
            \<and> strip (cells_of demo_task_file ! (2 - 1)) = ''Requires''
            \<and> strip (cells_of demo_task_file ! (2 - 2)) \<notin> set (names_of None)
            \<and> (3 \<le> (2 :: nat) \<longrightarrow> strip (cells_of demo_task_file ! (2 - 3)) \<noteq> ''Requires'')"
    by code_simp
  from unresolved_reference_kept_and_reported
         [where field_names = None and mapping = demo_mapping and ctx = task_context
            and t = "''T2''" and i = 2 and content = demo_task_file and F = "''Requires''",
          OF 1 values_ok_demo_mapping 3 4 5 6 7] 8
  show ?thesis by simp
qed


end
